theory Spec2Isabelle
  imports Complex_Main
begin

section \<open>Data model (types.ts)\<close>

text \<open>
  JavaScript numbers are modelled as exact reals: rounding of IEEE doubles, NaN and the
  infinities are outside the model, except where a definition below says otherwise.
  Strings are \<^typ>\<open>string\<close>; an optional field is an \<^typ>\<open>'a option\<close>.
  The fields \<open>id\<close> and \<open>text\<close> of \<open>TextBubble\<close> are written \<open>id'\<close> and \<open>text'\<close>.
\<close>

record BoundingBox =
  ymin :: real
  xmin :: real
  ymax :: real
  xmax :: real

datatype Shape = rectangle | ellipse

record TextBubble =
  id' :: string
  text' :: string
  originalText :: "string option"
  box :: BoundingBox
  isManual :: "bool option"
  textColor :: "string option"
  backgroundColor :: "string option"
  shape :: "Shape option"
  fontSizeScale :: "real option"
  fontFamily :: "string option"

datatype Tool = Select | Draw | Pan | Tree

text \<open>
  The bubble a manual draw inserts (\<open>tempBubble\<close>, MangaEditor.tsx 667-677).
\<close>

definition tempBubble :: "string \<Rightarrow> BoundingBox \<Rightarrow> Shape \<Rightarrow> TextBubble" where
  "tempBubble tempId newBox drawShape0 =
     \<lparr> id' = tempId, text' = ''...'', originalText = None, box = newBox,
       isManual = Some True, textColor = Some ''#000000'',
       backgroundColor = Some ''#FFFFFF'', shape = Some drawShape0,
       fontSizeScale = Some 1, fontFamily = Some ''Comic Neue'' \<rparr>"

section \<open>Editor state (the useState cells of MangaEditor.tsx)\<close>

text \<open>
  One record holds the state cells the modelled handlers read or write. Each handler is
  a function from the state of the render it runs in to the state after its updates are
  applied. The viewport scale, the language menu and the DOM refs are left out.
\<close>

record editor =
  history :: "TextBubble list list"
  historyIndex :: nat
  bubbles :: "TextBubble list"
  isProcessing :: bool
  tool :: Tool
  drawShape :: Shape
  offset :: "real \<times> real"
  isPanning :: bool
  panStart :: "real \<times> real"
  isSpacePressed :: bool
  editingId :: "string option"
  editText :: string
  editTextColor :: string
  editBgColor :: string
  editFontFamily :: string
  drawSelection :: "((real \<times> real) \<times> (real \<times> real)) option"
  draggingId :: "string option"
  resizingId :: "string option"
  resizeHandle :: "string option"
  dragOffset :: "(real \<times> real) option"
  isDragging :: bool
  connections :: "(string \<times> string) list"
  activeTreeNode :: "string option"

definition initial_editor :: editor where
  "initial_editor =
     \<lparr> history = [[]], historyIndex = 0, bubbles = [], isProcessing = False,
       tool = Draw, drawShape = rectangle, offset = (0, 0), isPanning = False,
       panStart = (0, 0), isSpacePressed = False, editingId = None, editText = [],
       editTextColor = ''#000000'', editBgColor = ''#FFFFFF'',
       editFontFamily = ''Comic Neue'', drawSelection = None, draggingId = None,
       resizingId = None, resizeHandle = None, dragOffset = None, isDragging = False,
       connections = [], activeTreeNode = None \<rparr>"

text \<open>
  JavaScript truthiness of a \<open>string | null\<close> cell: \<open>null\<close> and the empty string are
  falsy.
\<close>

fun truthy :: "string option \<Rightarrow> bool" where
  "truthy None = False"
| "truthy (Some s) = (s \<noteq> [])"

section \<open>History helpers\<close>

text \<open>
  \<open>addToHistory\<close> (MangaEditor.tsx 101-108) is a \<open>useCallback\<close> closure over the
  \<open>historyIndex\<close> of the render that created it. Its updates of \<open>history\<close> and
  \<open>historyIndex\<close> are functional (\<open>prev => ...\<close>), so they act on the state \<open>s\<close> at the
  time they apply, while the slice \<open>prev.slice(0, historyIndex + 1)\<close> (\<^const>\<open>take\<close>)
  uses the captured index. A handler that runs synchronously calls the closure of the
  current render, whose captured index is the current one: \<open>addToHistory (historyIndex s) s\<close>,
  abbreviated \<open>commit s\<close> in the examples and lemmas. A continuation after an \<open>await\<close>
  calls the closure of the render in which its handler started.
\<close>

definition addToHistory :: "nat \<Rightarrow> editor \<Rightarrow> TextBubble list \<Rightarrow> editor" where
  "addToHistory capturedIndex s newBubbles =
     s\<lparr> history := take (capturedIndex + 1) (history s) @ [newBubbles],
        historyIndex := historyIndex s + 1,
        bubbles := newBubbles \<rparr>"

definition commit :: "editor \<Rightarrow> TextBubble list \<Rightarrow> editor" where
  "commit s newBubbles = addToHistory (historyIndex s) s newBubbles"

text \<open>
  \<open>handleUndo\<close> and \<open>handleRedo\<close> (110-124), closures over the current \<open>history\<close> and
  \<open>historyIndex\<close>. \<open>history[newIndex]\<close> is read inside the array whenever
  \<open>historyIndex <= history.length\<close> for undo and by the guard for redo; beyond that
  JavaScript would store \<open>undefined\<close>.
\<close>

definition handleUndo :: "editor \<Rightarrow> editor" where
  "handleUndo s =
     (if historyIndex s > 0 then
        (let newIndex = historyIndex s - 1
         in s\<lparr> historyIndex := newIndex, bubbles := history s ! newIndex \<rparr>)
      else s)"

definition handleRedo :: "editor \<Rightarrow> editor" where
  "handleRedo s =
     (if int (historyIndex s) < int (length (history s)) - 1 then
        (let newIndex = historyIndex s + 1
         in s\<lparr> historyIndex := newIndex, bubbles := history s ! newIndex \<rparr>)
      else s)"

section \<open>Tree (link) mode\<close>

text \<open>
  \<open>handleDeleteBubble\<close> (221-226): the deletion is committed and every connection
  that names the bubble is dropped.
\<close>

definition handleDeleteBubble :: "editor \<Rightarrow> string \<Rightarrow> editor" where
  "handleDeleteBubble s i =
     (addToHistory (historyIndex s) s (filter (\<lambda>b. id' b \<noteq> i) (bubbles s)))
       \<lparr> connections := filter (\<lambda>(start, end'). start \<noteq> i \<and> end' \<noteq> i) (connections s) \<rparr>"

text \<open>
  \<open>handleBubbleConnect\<close> (230-254). \<open>same_pair a i\<close> is the callback of
  \<open>connections.some\<close>: the connection joins \<open>a\<close> and \<open>i\<close>, in either direction.
\<close>

definition same_pair :: "string \<Rightarrow> string \<Rightarrow> string \<times> string \<Rightarrow> bool" where
  "same_pair a i = (\<lambda>(st, e). (st = a \<and> e = i) \<or> (st = i \<and> e = a))"

definition handleBubbleConnect :: "editor \<Rightarrow> string \<Rightarrow> editor" where
  "handleBubbleConnect s i =
     (if tool s \<noteq> Tree then s
      else case activeTreeNode s of
        None \<Rightarrow> s\<lparr> activeTreeNode := Some i \<rparr>
      | Some a \<Rightarrow>
          if a = i then s\<lparr> activeTreeNode := None \<rparr>
          else
            (let exists = list_ex (same_pair a i) (connections s);
                 s1 = (if \<not> exists then s\<lparr> connections := connections s @ [(a, i)] \<rparr>
                       else s)
             in s1\<lparr> activeTreeNode := Some i \<rparr>))"

subsection \<open>Chain decomposition (handleRetranslateLinked 262-319)\<close>

text \<open>
  \<open>adj\<close> is a JavaScript object used as a dictionary from node to the array of its
  successors; it is an association list here, one entry per key. \<open>nodes\<close> and \<open>visited\<close>
  are \<open>Set\<close>s, which iterate in insertion order: lists without repetition.
\<close>

type_synonym adjacency = "(string \<times> string list) list"

definition ensure_key :: "adjacency \<Rightarrow> string \<Rightarrow> adjacency" where
  "ensure_key adj n = (case map_of adj n of None \<Rightarrow> adj @ [(n, [])] | Some _ \<Rightarrow> adj)"

definition push_to :: "adjacency \<Rightarrow> string \<Rightarrow> string \<Rightarrow> adjacency" where
  "push_to adj from to = map (\<lambda>(k, v). if k = from then (k, v @ [to]) else (k, v)) adj"

definition adj_of :: "(string \<times> string) list \<Rightarrow> adjacency" where
  "adj_of conns =
     foldl (\<lambda>adj (from, to). push_to (ensure_key (ensure_key adj from) to) from to) [] conns"

definition set_add :: "string list \<Rightarrow> string \<Rightarrow> string list" where
  "set_add xs x = (if x \<in> set xs then xs else xs @ [x])"

definition nodes_of :: "(string \<times> string) list \<Rightarrow> string list" where
  "nodes_of conns = foldl (\<lambda>ns (st, e). set_add (set_add ns st) e) [] conns"

text \<open>
  \<open>inDegree[to] = (inDegree[to] || 0) + 1\<close>: a missing entry and a zero entry both
  count as 0.
\<close>

definition inDegree_of :: "(string \<times> string) list \<Rightarrow> string list \<Rightarrow> (string \<rightharpoonup> nat)" where
  "inDegree_of conns nodes =
     foldl (\<lambda>m (_, to). m(to \<mapsto> (case m to of None \<Rightarrow> 0 | Some d \<Rightarrow> d) + 1))
       (\<lambda>n. if n \<in> set nodes then Some 0 else None) conns"

definition starts_of :: "(string \<times> string) list \<Rightarrow> string list" where
  "starts_of conns =
     filter (\<lambda>n. inDegree_of conns (nodes_of conns) n = Some 0) (nodes_of conns)"

text \<open>
  The \<open>while\<close> loop of \<open>getChain\<close> (294-304), with the shared \<open>visited\<close> set passed in
  and returned. \<open>if (next)\<close> is false for the empty string as well as for a failed
  \<open>find\<close>.
\<close>

function walk :: "adjacency \<Rightarrow> string list \<Rightarrow> string list \<Rightarrow> string \<Rightarrow> string list \<times> string list" where
  "walk adj visited path cur =
     (case map_of adj cur of
        None \<Rightarrow> (path, visited)
      | Some ns \<Rightarrow>
          if ns = [] then (path, visited)
          else
            (case find (\<lambda>n. n \<notin> set visited) ns of
               None \<Rightarrow> (path, visited)
             | Some next \<Rightarrow>
                 if next = [] then (path, visited)
                 else walk adj (set_add visited next) (path @ [next]) next))"
  by pat_completeness auto
termination
proof (relation "measure (\<lambda>(adj, visited, path, cur).
          card (set (concat (map snd adj)) - set visited))")
  show "wf (measure (\<lambda>(adj, visited, path, cur).
          card (set (concat (map snd adj)) - set visited)))"
    by simp
next
  fix adj :: adjacency and visited path :: "string list" and cur :: string
    and ns :: "string list" and nxt :: string
  assume look: "map_of adj cur = Some ns"
    and found: "find (\<lambda>n. n \<notin> set visited) ns = Some nxt"
  from found have fresh: "nxt \<notin> set visited" and mem: "nxt \<in> set ns"
    by (auto simp: find_Some_iff)
  from look have "(cur, ns) \<in> set adj" by (rule map_of_SomeD)
  with mem have "nxt \<in> set (concat (map snd adj))" by force
  with fresh have
    "set (concat (map snd adj)) - set (set_add visited nxt)
       \<subset> set (concat (map snd adj)) - set visited"
    by (auto simp: set_add_def)
  then have "card (set (concat (map snd adj)) - set (set_add visited nxt))
       < card (set (concat (map snd adj)) - set visited)"
    by (intro psubset_card_mono) simp_all
  then show "((adj, set_add visited nxt, path @ [nxt], nxt), (adj, visited, path, cur))
       \<in> measure (\<lambda>(adj, visited, path, cur).
            card (set (concat (map snd adj)) - set visited))"
    by simp
qed

definition getChain :: "adjacency \<Rightarrow> string list \<Rightarrow> string \<Rightarrow> string list \<times> string list" where
  "getChain adj visited startNode = walk adj (set_add visited startNode) [startNode] startNode"

text \<open>
  The body of both \<open>forEach\<close> loops (308-319): an unvisited node starts a chain.
  The state is the pair of \<open>visited\<close> and \<open>chains\<close> (written \<open>chs\<close>).
\<close>

definition start_chain ::
  "adjacency \<Rightarrow> string list \<times> string list list \<Rightarrow> string \<Rightarrow> string list \<times> string list list" where
  "start_chain adj st n =
     (case st of (visited, chs) \<Rightarrow>
        if n \<in> set visited then (visited, chs)
        else (case getChain adj visited n of (path, visited') \<Rightarrow> (visited', chs @ [path])))"

definition chains_of :: "(string \<times> string) list \<Rightarrow> string list list" where
  "chains_of conns =
     (let adj = adj_of conns;
          st1 = foldl (start_chain adj) ([], []) (starts_of conns);
          st2 = foldl (start_chain adj) st1 (nodes_of conns)
      in snd st2)"

text \<open>The chains that are sent on: \<open>if (chainIds.length < 2) continue\<close> (325).\<close>

definition context_chains :: "(string \<times> string) list \<Rightarrow> string list list" where
  "context_chains conns = filter (\<lambda>chainIds. \<not> length chainIds < 2) (chains_of conns)"

subsection \<open>Context retranslation (handleRetranslateLinked 322-352, geminiService.ts 173-236)\<close>

text \<open>
  The model call and the parsing of its answer are outside the repository. They enter
  as a parameter \<open>generate\<close> from the chain sent (the target language is fixed during
  a pass) to one of three outcomes: anything in the \<open>try\<close> block raised (\<open>Raised\<close>), the
  answer had no \<open>translations\<close> (\<open>NoTranslations\<close>), or the list of \<open>(id, translated_text)\<close>.
  Every item is taken to carry both fields, as the response schema requires; an item
  without them has no counterpart here.
\<close>

datatype gen_result = Raised | NoTranslations | Translations "(string \<times> string) list"

type_synonym chain_item = "string \<times> string \<times> string option"

definition retranslateContextAware ::
  "(chain_item list \<Rightarrow> gen_result) \<Rightarrow> chain_item list \<Rightarrow> (string \<times> string) list" where
  "retranslateContextAware generate bs =
     (if bs = [] then []
      else case generate bs of
        Raised \<Rightarrow> []
      | NoTranslations \<Rightarrow> []
      | Translations ts \<Rightarrow> ts)"

definition chainData :: "TextBubble list \<Rightarrow> string list \<Rightarrow> chain_item list" where
  "chainData bs chainIds =
     map the (filter (\<lambda>x. x \<noteq> None)
       (map (\<lambda>i. case find (\<lambda>b. id' b = i) bs of
                    None \<Rightarrow> None
                  | Some b \<Rightarrow> Some (id' b, text' b, originalText b)) chainIds))"

fun findIndex :: "('a \<Rightarrow> bool) \<Rightarrow> 'a list \<Rightarrow> nat option" where
  "findIndex P [] = None"
| "findIndex P (x # xs) = (if P x then Some 0 else map_option Suc (findIndex P xs))"

definition apply_translation :: "TextBubble list \<Rightarrow> string \<times> string \<Rightarrow> TextBubble list" where
  "apply_translation updatedBubbles t =
     (case findIndex (\<lambda>b. id' b = fst t) updatedBubbles of
        None \<Rightarrow> updatedBubbles
      | Some idx \<Rightarrow> updatedBubbles[idx := (updatedBubbles ! idx)\<lparr> text' := snd t \<rparr>])"

text \<open>One iteration of \<open>for (const chainIds of chains)\<close>; \<open>bs\<close> is the \<open>bubbles\<close> of the render.\<close>

definition process_chain ::
  "(chain_item list \<Rightarrow> gen_result) \<Rightarrow> TextBubble list \<Rightarrow> TextBubble list \<Rightarrow> string list
     \<Rightarrow> TextBubble list" where
  "process_chain generate bs updatedBubbles chainIds =
     (if length chainIds < 2 then updatedBubbles
      else foldl apply_translation updatedBubbles
             (retranslateContextAware generate (chainData bs chainIds)))"

text \<open>
  The pass starts in the render \<open>s0\<close> of the click: with no connection it returns at
  once, otherwise it sets \<open>isProcessing\<close>.
\<close>

definition handleRetranslateLinked_start :: "editor \<Rightarrow> editor" where
  "handleRetranslateLinked_start s0 =
     (if connections s0 = [] then s0 else s0\<lparr> isProcessing := True \<rparr>)"

text \<open>
  The loop awaits one request per chain; every other handler stays live meanwhile.
  The loop itself reads only what the closure of \<open>s0\<close> captured (\<open>bubbles\<close>,
  \<open>connections\<close>) and its local \<open>updatedBubbles\<close>, and then calls the \<open>addToHistory\<close> of
  \<open>s0\<close>. \<open>handleRetranslateLinked generate s0 s\<close> is the state after the pass that
  started in \<open>s0\<close> has finished, \<open>s\<close> being the state its last updates apply to.
\<close>

definition handleRetranslateLinked ::
  "(chain_item list \<Rightarrow> gen_result) \<Rightarrow> editor \<Rightarrow> editor \<Rightarrow> editor" where
  "handleRetranslateLinked generate s0 s =
     (if connections s0 = [] then s
      else
        (let chains = chains_of (connections s0);
             updatedBubbles = foldl (process_chain generate (bubbles s0)) (bubbles s0) chains
         in (addToHistory (historyIndex s0) s updatedBubbles)\<lparr> isProcessing := False \<rparr>))"

text \<open>
  What a pass is expected to leave, stated from the answers alone. \<open>pass_answers\<close>
  lists, in the order of the chains, the translations that came back for the chains
  of two or more nodes that have a bubble in the store; a request that raised, or an
  answer without translations, contributes none. \<open>answered_text\<close> is the text of the
  bubble at index \<open>j\<close> once the answers are matched by id: the text of the last answer
  that names its id, if the bubble is the first one with that id; its own text
  otherwise.
\<close>

definition pass_answers ::
  "(chain_item list \<Rightarrow> gen_result) \<Rightarrow> TextBubble list \<Rightarrow> string list list
     \<Rightarrow> (string \<times> string) list" where
  "pass_answers generate bs chs =
     concat (map (\<lambda>c. case generate (chainData bs c) of Translations ts \<Rightarrow> ts | _ \<Rightarrow> [])
       (filter (\<lambda>c. \<not> length c < 2 \<and> chainData bs c \<noteq> []) chs))"

definition answered_text :: "(string \<times> string) list \<Rightarrow> TextBubble list \<Rightarrow> nat \<Rightarrow> string" where
  "answered_text answers bs j =
     (if findIndex (\<lambda>b. id' b = id' (bs ! j)) bs = Some j then
        (case map_of (rev answers) (id' (bs ! j)) of
           None \<Rightarrow> text' (bs ! j)
         | Some t \<Rightarrow> t)
      else text' (bs ! j))"

subsection \<open>The link invariant of the data model\<close>

definition no_self_loops :: "(string \<times> string) list \<Rightarrow> bool" where
  "no_self_loops conns = list_all (\<lambda>(a, b). a \<noteq> b) conns"

fun no_double_links :: "(string \<times> string) list \<Rightarrow> bool" where
  "no_double_links [] = True"
| "no_double_links ((a, b) # cs) =
     (\<not> list_ex (same_pair a b) cs \<and> no_double_links cs)"

definition links_ok :: "(string \<times> string) list \<Rightarrow> bool" where
  "links_ok conns = (no_self_loops conns \<and> no_double_links conns)"

section \<open>Font sizing (calculateBaseFontSize 42-50 and its two call sites)\<close>

text \<open>
  \<open>textLength || 1\<close> replaces a zero length by 1. \<open>Math.sqrt\<close> of a negative number is
  NaN, which \<open>Math.max\<close> and \<open>Math.min\<close> pass on: the result is \<open>None\<close> there.
\<close>

definition calculateBaseFontSize :: "nat \<Rightarrow> real \<Rightarrow> real \<Rightarrow> real option" where
  "calculateBaseFontSize textLength boxWidth boxHeight =
     (let area = boxWidth * boxHeight;
          charArea = area / real (if textLength = 0 then 1 else textLength)
      in if charArea < 0 then None
         else (let size = sqrt charArea in Some (min (max (size * 0.6) 10) 50)))"

text \<open>\<open>b.fontSizeScale || 1\<close>: a missing scale and a zero scale both give 1.\<close>

definition fontSizeScale_or_1 :: "TextBubble \<Rightarrow> real" where
  "fontSizeScale_or_1 b = (case fontSizeScale b of None \<Rightarrow> 1 | Some k \<Rightarrow> if k = 0 then 1 else k)"

text \<open>The exporter, \<open>handleDownload\<close> (379-380, 399-402).\<close>

definition scaledFontSize :: "real \<Rightarrow> TextBubble \<Rightarrow> real option" where
  "scaledFontSize naturalWidth b =
     (let normalizedW = xmax (box b) - xmin (box b);
          normalizedH = ymax (box b) - ymin (box b);
          baseFontSizeUnits = calculateBaseFontSize (length (text' b)) normalizedW normalizedH;
          scaleFactor = naturalWidth / 1000
      in map_option (\<lambda>u. u * scaleFactor * fontSizeScale_or_1 b) baseFontSizeUnits)"

text \<open>
  The preview, the bubble render (993-998). The argument is the image's natural width,
  \<open>None\<close> while \<open>imgRef.current\<close> is null.
\<close>

definition realFontSizePx :: "real option \<Rightarrow> TextBubble \<Rightarrow> real option" where
  "realFontSizePx naturalWidth b =
     (let normalizedW = xmax (box b) - xmin (box b);
          normalizedH = ymax (box b) - ymin (box b);
          scaleFactor = (case naturalWidth of Some w \<Rightarrow> w / 1000 | None \<Rightarrow> 1);
          baseFontSizeUnits = calculateBaseFontSize (length (text' b)) normalizedW normalizedH
      in map_option (\<lambda>u. u * scaleFactor * fontSizeScale_or_1 b) baseFontSizeUnits)"

text \<open>The formula in the words of the specification (section 4.5).\<close>

definition spec_baseSize :: "nat \<Rightarrow> real \<Rightarrow> real \<Rightarrow> real" where
  "spec_baseSize N W H =
     (let area = W * H;
          perCharArea = area / real (max N 1);
          baseSize = sqrt perCharArea * 0.6
      in if baseSize < 10 then 10 else if 50 < baseSize then 50 else baseSize)"

definition spec_pixelSize :: "nat \<Rightarrow> real \<Rightarrow> real \<Rightarrow> real \<Rightarrow> real \<Rightarrow> real" where
  "spec_pixelSize N W H targetPixelWidth scale =
     spec_baseSize N W H * (targetPixelWidth / 1000) * scale"

section \<open>Pointer handlers\<close>

text \<open>
  What the handlers read of a mouse event. \<open>relX\<close> and \<open>relY\<close> are
  \<open>(clientX - rect.left) / rect.width\<close> and \<open>(clientY - rect.top) / rect.height\<close> for the
  content rectangle, before clamping; \<open>data_handle\<close> and \<open>data_bubble_id\<close> are the
  attributes of the target; the two flags say whether the target lies in the editing
  toolbar or in the bubble being edited.
\<close>

record MouseEvent =
  button :: nat
  buttons :: nat
  clientX :: real
  clientY :: real
  relX :: real
  relY :: real
  data_handle :: "string option"
  data_bubble_id :: "string option"
  in_editing_toolbar :: bool
  in_editing_bubble :: bool

text \<open>\<open>getRelativeCoords\<close> (465-472), with the content element mounted.\<close>

definition getRelativeCoords :: "MouseEvent \<Rightarrow> real \<times> real" where
  "getRelativeCoords e = (max 0 (min 1 (relX e)), max 0 (min 1 (relY e)))"

text \<open>\<open>saveEdit\<close> (730-754).\<close>

definition saveEdit :: "editor \<Rightarrow> editor" where
  "saveEdit s =
     (if \<not> truthy (editingId s) then s
      else
        (let s1 =
           (case find (\<lambda>b. Some (id' b) = editingId s) (bubbles s) of
              None \<Rightarrow> s
            | Some currentBubble \<Rightarrow>
                (let hasChanged =
                       (text' currentBubble \<noteq> editText s \<or>
                        textColor currentBubble \<noteq> Some (editTextColor s) \<or>
                        backgroundColor currentBubble \<noteq> Some (editBgColor s) \<or>
                        fontFamily currentBubble \<noteq> Some (editFontFamily s))
                 in if hasChanged then
                      addToHistory (historyIndex s) s
                        (map (\<lambda>b. if Some (id' b) = editingId s
                                   then b\<lparr> text' := editText s,
                                           textColor := Some (editTextColor s),
                                           backgroundColor := Some (editBgColor s),
                                           fontFamily := Some (editFontFamily s) \<rparr>
                                   else b) (bubbles s))
                    else s))
         in s1\<lparr> editingId := None \<rparr>))"

text \<open>The hit test of \<open>handleMouseDown\<close> (523-529).\<close>

definition hit :: "real \<times> real \<Rightarrow> TextBubble \<Rightarrow> bool" where
  "hit coords b =
     (let bx = xmin (box b) / 1000;
          by = ymin (box b) / 1000;
          bw = (xmax (box b) - xmin (box b)) / 1000;
          bh = (ymax (box b) - ymin (box b)) / 1000
      in fst coords \<ge> bx \<and> fst coords \<le> bx + bw \<and> snd coords \<ge> by \<and> snd coords \<le> by + bh)"

text \<open>
  \<open>handleMouseDown\<close> (492-553). The hit test reads the \<open>bubbles\<close> of the render, which
  \<open>saveEdit\<close> does not move.
\<close>

definition handleMouseDown :: "editor \<Rightarrow> MouseEvent \<Rightarrow> editor" where
  "handleMouseDown s e =
     (if tool s = Pan \<or> button e = 1 \<or> (buttons e = 1 \<and> isSpacePressed s) then
        s\<lparr> isPanning := True,
           panStart := (clientX e - fst (offset s), clientY e - snd (offset s)) \<rparr>
      else if truthy (editingId s) \<and> (in_editing_toolbar e \<or> in_editing_bubble e) then s
      else
        (let s1 = (if truthy (editingId s) then saveEdit s else s)
         in if tool s = Select \<and> truthy (data_handle e) \<and> truthy (data_bubble_id e) then
              s1\<lparr> resizingId := data_bubble_id e, resizeHandle := data_handle e,
                  isDragging := False \<rparr>
            else
              (let coords = getRelativeCoords e
               in if tool s = Select \<or> tool s = Tree then
                    (case find (hit coords) (rev (bubbles s)) of
                       Some clickedBubble \<Rightarrow>
                         if tool s = Tree then handleBubbleConnect s1 (id' clickedBubble)
                         else s1\<lparr> draggingId := Some (id' clickedBubble),
                                  dragOffset := Some (fst coords - xmin (box clickedBubble) / 1000,
                                                      snd coords - ymin (box clickedBubble) / 1000),
                                  isDragging := False \<rparr>
                     | None \<Rightarrow>
                         (let s2 = s1\<lparr> editingId := None \<rparr>
                          in if tool s = Tree then s2\<lparr> activeTreeNode := None \<rparr> else s2))
                  else if tool s = Draw then s1\<lparr> drawSelection := Some (coords, coords) \<rparr>
                  else s1)))"

text \<open>The callback of \<open>prev.map\<close> in the resizing branch (571-589), for the bubble resized.\<close>

definition resize_box :: "string \<Rightarrow> real \<Rightarrow> real \<Rightarrow> BoundingBox \<Rightarrow> BoundingBox" where
  "resize_box handle currentX currentY bx =
     (if handle = ''nw'' then
        \<lparr> ymin = min currentY (ymax bx - 10), xmin = min currentX (xmax bx - 10),
          ymax = ymax bx, xmax = xmax bx \<rparr>
      else if handle = ''ne'' then
        \<lparr> ymin = min currentY (ymax bx - 10), xmin = xmin bx,
          ymax = ymax bx, xmax = max currentX (xmin bx + 10) \<rparr>
      else if handle = ''sw'' then
        \<lparr> ymin = ymin bx, xmin = min currentX (xmax bx - 10),
          ymax = max currentY (ymin bx + 10), xmax = xmax bx \<rparr>
      else if handle = ''se'' then
        \<lparr> ymin = ymin bx, xmin = xmin bx,
          ymax = max currentY (ymin bx + 10), xmax = max currentX (xmin bx + 10) \<rparr>
      else \<lparr> ymin = ymin bx, xmin = xmin bx, ymax = ymax bx, xmax = xmax bx \<rparr>)"

text \<open>
  The callback of \<open>prev.map\<close> in the dragging branch (600-614), for the bubble dragged,
  over exact reals. In the program \<open>newXmin + width\<close> is rounded to a double, so the
  width read back from the new box, \<open>xmax - xmin\<close>, can differ from \<open>width\<close> in the
  last place; nothing below is a statement about that rounding.
\<close>

definition drag_box :: "real \<times> real \<Rightarrow> real \<times> real \<Rightarrow> BoundingBox \<Rightarrow> BoundingBox" where
  "drag_box coords dragOffset0 bx =
     (let width = xmax bx - xmin bx;
          height = ymax bx - ymin bx;
          newXmin = (fst coords - fst dragOffset0) * 1000;
          newYmin = (snd coords - snd dragOffset0) * 1000
      in \<lparr> ymin = newYmin, xmin = newXmin, ymax = newYmin + height, xmax = newXmin + width \<rparr>)"

text \<open>\<open>handleMouseMove\<close> (555-619).\<close>

definition handleMouseMove :: "editor \<Rightarrow> MouseEvent \<Rightarrow> editor" where
  "handleMouseMove s e =
     (if isPanning s then
        s\<lparr> offset := (clientX e - fst (panStart s), clientY e - snd (panStart s)) \<rparr>
      else
        (let coords = getRelativeCoords e
         in if truthy (resizingId s) \<and> truthy (resizeHandle s) then
              s\<lparr> bubbles :=
                   map (\<lambda>b. if Some (id' b) \<noteq> resizingId s then b
                            else b\<lparr> box := resize_box (the (resizeHandle s))
                                             (fst coords * 1000) (snd coords * 1000) (box b) \<rparr>)
                     (bubbles s) \<rparr>
            else if truthy (draggingId s) \<and> dragOffset s \<noteq> None then
              s\<lparr> isDragging := True,
                 bubbles :=
                   map (\<lambda>b. if Some (id' b) \<noteq> draggingId s then b
                            else b\<lparr> box := drag_box coords (the (dragOffset s)) (box b) \<rparr>)
                     (bubbles s) \<rparr>
            else if drawSelection s \<noteq> None then
              s\<lparr> drawSelection := map_option (\<lambda>prev. (fst prev, coords)) (drawSelection s) \<rparr>
            else s))"

text \<open>
  \<open>handleMouseUp\<close> (621-680), up to the insertion of the placeholder bubble; what follows
  the \<open>await\<close> of the region translation runs later and is not part of this step.
  \<open>imageReady\<close> says that \<open>imgRef.current\<close> and \<open>image.file\<close> are there; \<open>tempId\<close> is
  \<open>Date.now().toString()\<close>.
\<close>

definition handleMouseUp :: "bool \<Rightarrow> string \<Rightarrow> editor \<Rightarrow> editor" where
  "handleMouseUp imageReady tempId s =
     (if isPanning s then s\<lparr> isPanning := False \<rparr>
      else if truthy (resizingId s) then
        (addToHistory (historyIndex s) s (bubbles s))\<lparr> resizingId := None, resizeHandle := None \<rparr>
      else if truthy (draggingId s) then
        (if isDragging s then addToHistory (historyIndex s) s (bubbles s) else s)
          \<lparr> draggingId := None, dragOffset := None, isDragging := False \<rparr>
      else
        (case drawSelection s of
           None \<Rightarrow> s\<lparr> drawSelection := None \<rparr>
         | Some sel \<Rightarrow>
             if \<not> imageReady then s\<lparr> drawSelection := None \<rparr>
             else
               (let x1 = min (fst (fst sel)) (fst (snd sel));
                    x2 = max (fst (fst sel)) (fst (snd sel));
                    y1 = min (snd (fst sel)) (snd (snd sel));
                    y2 = max (snd (fst sel)) (snd (snd sel))
                in if (x2 - x1) < 0.01 \<or> (y2 - y1) < 0.01 then s\<lparr> drawSelection := None \<rparr>
                   else
                     (let newBox = \<lparr> ymin = y1 * 1000, xmin = x1 * 1000,
                                     ymax = y2 * 1000, xmax = x2 * 1000 \<rparr>
                      in s\<lparr> bubbles := bubbles s @ [tempBubble tempId newBox (drawShape s)],
                            drawSelection := None \<rparr>))))"

text \<open>
  What follows the \<open>await\<close> in \<open>handleMouseUp\<close> (700-717), when the region translation
  has come back with \<open>result = (text, textColor, backgroundColor)\<close>. \<open>tempBubble0\<close> and
  \<open>capturedIndex\<close> are the placeholder and the \<open>historyIndex\<close> of the render that handled
  the pointer-up; \<open>s\<close> is the state when the continuation runs. The \<open>catch\<close> branch
  removes the placeholder.
\<close>

definition handleMouseUp_resolved ::
  "nat \<Rightarrow> TextBubble \<Rightarrow> string \<times> string \<times> string \<Rightarrow> editor \<Rightarrow> editor" where
  "handleMouseUp_resolved capturedIndex tempBubble0 result s =
     (let resolvedBubble = tempBubble0\<lparr> text' := fst result,
                                         textColor := Some (fst (snd result)),
                                         backgroundColor := Some (snd (snd result)) \<rparr>;
          updated = map (\<lambda>b. if id' b = id' tempBubble0 then resolvedBubble else b) (bubbles s)
      in addToHistory capturedIndex s updated)"

definition handleMouseUp_failed :: "string \<Rightarrow> editor \<Rightarrow> editor" where
  "handleMouseUp_failed tempId s = s\<lparr> bubbles := filter (\<lambda>b. id' b \<noteq> tempId) (bubbles s) \<rparr>"

text \<open>The pointer events of the editor area, and one step of the editor on each.\<close>

datatype pointer_event = MouseDown MouseEvent | MouseMove MouseEvent | MouseUp bool string

fun pointer_step :: "editor \<Rightarrow> pointer_event \<Rightarrow> editor" where
  "pointer_step s (MouseDown e) = handleMouseDown s e"
| "pointer_step s (MouseMove e) = handleMouseMove s e"
| "pointer_step s (MouseUp imageReady tempId) = handleMouseUp imageReady tempId s"

text \<open>The actions that can change the link set: pointer events and the delete button.\<close>

datatype editor_action = Pointer pointer_event | Delete string

fun editor_step :: "editor \<Rightarrow> editor_action \<Rightarrow> editor" where
  "editor_step s (Pointer ev) = pointer_step s ev"
| "editor_step s (Delete i) = handleDeleteBubble s i"

subsection \<open>The box invariant of the data model\<close>

definition box_ordered :: "BoundingBox \<Rightarrow> bool" where
  "box_ordered bx = (xmin bx < xmax bx \<and> ymin bx < ymax bx)"

definition box_in_range :: "BoundingBox \<Rightarrow> bool" where
  "box_in_range bx =
     (0 \<le> xmin bx \<and> xmin bx \<le> 1000 \<and> 0 \<le> xmax bx \<and> xmax bx \<le> 1000 \<and>
      0 \<le> ymin bx \<and> ymin bx \<le> 1000 \<and> 0 \<le> ymax bx \<and> ymax bx \<le> 1000)"

definition box_invariant :: "BoundingBox \<Rightarrow> bool" where
  "box_invariant bx = (box_ordered bx \<and> box_in_range bx)"

text \<open>A box inside the canvas whose sides are at least the minimum size of a resize.\<close>

definition box_roomy :: "BoundingBox \<Rightarrow> bool" where
  "box_roomy bx = (box_in_range bx \<and> xmin bx + 10 \<le> xmax bx \<and> ymin bx + 10 \<le> ymax bx)"

section \<open>Example data\<close>

text \<open>
  Two drawn bubbles in select mode, a pointer event at a relative position over the
  bubble body, and four linked bubbles with a collaborator that fails on the chain
  starting at A and answers for the chain C, D. The pointer positions of the two
  counterexamples below are dyadic fractions, so IEEE doubles give the same boxes.
\<close>

definition example_box :: BoundingBox where
  "example_box = \<lparr> ymin = 125, xmin = 125, ymax = 375, xmax = 375 \<rparr>"

definition example_select :: editor where
  "example_select =
     (commit initial_editor
        [tempBubble ''1'' example_box rectangle,
         tempBubble ''2'' \<lparr> ymin = 500, xmin = 500, ymax = 750, xmax = 1000 \<rparr> ellipse])
       \<lparr> tool := Select \<rparr>"

definition pointer_at :: "real \<Rightarrow> real \<Rightarrow> MouseEvent" where
  "pointer_at x y =
     \<lparr> button = 0, buttons = 1, clientX = x * 800, clientY = y * 1200, relX = x, relY = y,
       data_handle = None, data_bubble_id = None,
       in_editing_toolbar = False, in_editing_bubble = False \<rparr>"

definition handle_at :: "string \<Rightarrow> string \<Rightarrow> real \<Rightarrow> real \<Rightarrow> MouseEvent" where
  "handle_at h i x y = (pointer_at x y)\<lparr> data_handle := Some h, data_bubble_id := Some i \<rparr>"

definition example_narrow :: editor where
  "example_narrow =
     (commit initial_editor
        [tempBubble ''1'' \<lparr> ymin = 0, xmin = 0, ymax = 5, xmax = 5 \<rparr> rectangle])
       \<lparr> tool := Select \<rparr>"

definition example_linked :: editor where
  "example_linked =
     (commit initial_editor
        [tempBubble ''A'' example_box rectangle, tempBubble ''B'' example_box rectangle,
         tempBubble ''C'' example_box rectangle, tempBubble ''D'' example_box rectangle])
       \<lparr> tool := Tree, connections := [(''A'', ''B''), (''C'', ''D'')] \<rparr>"

definition example_generate :: "chain_item list \<Rightarrow> gen_result" where
  "example_generate items =
     (if map fst items = [''A'', ''B''] then Raised
      else Translations [(''C'', ''see''), (''D'', ''dee'')])"

text \<open>The same, but the answer for the chain C, D names A instead of D.\<close>

definition example_cross :: "chain_item list \<Rightarrow> gen_result" where
  "example_cross items =
     (if map fst items = [''A'', ''B''] then Raised
      else Translations [(''C'', ''see''), (''A'', ''cross'')])"

text \<open>
  Two manual draws from the initial state. The first is drawn and its translation
  comes back before anything else happens (its pointer-up render had index 0). The
  second is drawn next: its placeholder is in the store, its translation is pending,
  and its pointer-up render had index 1.
\<close>

definition draw_gesture :: "real \<Rightarrow> real \<Rightarrow> real \<Rightarrow> real \<Rightarrow> string \<Rightarrow> pointer_event list" where
  "draw_gesture x1 y1 x2 y2 tempId =
     [MouseDown (pointer_at x1 y1), MouseMove (pointer_at x2 y2), MouseUp True tempId]"

definition example_first :: TextBubble where
  "example_first =
     (tempBubble ''1'' example_box rectangle)
       \<lparr> text' := ''Hello'', textColor := Some ''#000000'', backgroundColor := Some ''#FFFFFF'' \<rparr>"

definition example_second :: TextBubble where
  "example_second = tempBubble ''2'' \<lparr> ymin = 500, xmin = 500, ymax = 750, xmax = 750 \<rparr> rectangle"

definition example_committed :: editor where
  "example_committed =
     handleMouseUp_resolved 0 (tempBubble ''1'' example_box rectangle)
       (''Hello'', ''#000000'', ''#FFFFFF'')
       (foldl pointer_step initial_editor (draw_gesture 0.125 0.125 0.375 0.375 ''1''))"

definition example_pending :: editor where
  "example_pending = foldl pointer_step example_committed (draw_gesture 0.5 0.5 0.75 0.75 ''2'')"

section \<open>History: lemmas and claims\<close>

lemma commits_state:
  "foldl commit initial_editor snaps =
     initial_editor\<lparr> history := [] # snaps, historyIndex := length snaps,
       bubbles := last ([] # snaps) \<rparr>"
proof (induction snaps rule: rev_induct)
  case Nil
  show ?case by (simp add: initial_editor_def)
next
  case (snoc x xs)
  then show ?case by (simp add: commit_def addToHistory_def)
qed

lemma undos_state:
  "k \<le> historyIndex s \<Longrightarrow>
     history ((handleUndo ^^ k) s) = history s \<and>
     historyIndex ((handleUndo ^^ k) s) = historyIndex s - k"
  by (induction k) (auto simp: handleUndo_def Let_def)

text \<open>
  A commit from the current render does what the history manager is meant to do:
  after N such commits and k undos, it keeps the history up to the current index,
  appends the snapshot, and leaves the index on the last entry, where redo is a no-op.
\<close>

lemma fresh_commit_truncates_redo_branch:
  "k \<le> length snaps \<Longrightarrow>
   (let s = (handleUndo ^^ k) (foldl commit initial_editor snaps);
        s' = commit s snap
    in history s' = take (historyIndex s + 1) (history s) @ [snap] \<and>
       history s' = take (length snaps - k + 1) ([] # snaps) @ [snap] \<and>
       historyIndex s' = historyIndex s + 1 \<and>
       historyIndex s' = length snaps - k + 1 \<and>
       bubbles s' = snap \<and>
       int (historyIndex s') = int (length (history s')) - 1 \<and>
       handleRedo s' = s')"
proof -
  assume k: "k \<le> length snaps"
  define s0 where "s0 = foldl commit initial_editor snaps"
  define s where "s = (handleUndo ^^ k) s0"
  have h0: "history s0 = [] # snaps" and i0: "historyIndex s0 = length snaps"
    by (simp_all add: s0_def commits_state)
  from k i0 have "k \<le> historyIndex s0" by simp
  from undos_state[OF this] h0 i0
  have h: "history s = [] # snaps" and i: "historyIndex s = length snaps - k"
    by (simp_all add: s_def)
  have len: "length (history (commit s snap)) = length snaps - k + 2"
    using k by (simp add: commit_def addToHistory_def h i)
  have "handleRedo (commit s snap) = commit s snap"
    using len by (simp add: handleRedo_def) (simp add: commit_def addToHistory_def i)
  moreover have "int (historyIndex (commit s snap)) =
      int (length (history (commit s snap))) - 1"
    using len by (simp add: commit_def addToHistory_def i)
  ultimately show ?thesis
    unfolding Let_def s_def[symmetric] s0_def[symmetric]
    by (simp add: commit_def addToHistory_def h i)
qed

lemma example_committed_state:
  "history example_committed = [[], [example_first]] \<and> historyIndex example_committed = 1 \<and>
   bubbles example_committed = [example_first] \<and> tool example_committed = Draw \<and>
   \<not> isPanning example_committed \<and> resizingId example_committed = None \<and>
   draggingId example_committed = None \<and> drawSelection example_committed = None \<and>
   editingId example_committed = None \<and> \<not> isSpacePressed example_committed \<and>
   drawShape example_committed = rectangle"
  by (simp add: example_committed_def example_first_def draw_gesture_def handleMouseUp_resolved_def
        handleMouseDown_def handleMouseMove_def handleMouseUp_def pointer_at_def
        getRelativeCoords_def commit_def addToHistory_def initial_editor_def tempBubble_def example_box_def
        Let_def)

lemma example_pending_state:
  "history example_pending = [[], [example_first]] \<and> historyIndex example_pending = 1 \<and>
   bubbles example_pending = [example_first, example_second]"
  using example_committed_state
  by (simp add: example_pending_def example_second_def draw_gesture_def
        handleMouseDown_def handleMouseMove_def handleMouseUp_def pointer_at_def
        getRelativeCoords_def Let_def)

text \<open>
  C2, on the code. One commit is made with a stale index. From the initial state: draw
  a box and let its translation come back (commit, index 1); draw a second box (its
  pointer-up render has index 1, its translation is pending); undo (index 0, empty
  store); then the second translation comes back. The completion slices the history at
  the captured index 1, not at the current index 0: the entry beyond the current index
  is kept, the index (1) is not the last one (2), the store is not the snapshot at the
  index, and redo is available.
\<close>

theorem stale_commit_keeps_redo_branch:
  "historyIndex example_pending = 1 \<and>
   historyIndex (handleUndo example_pending) = 0 \<and>
   history (handleMouseUp_resolved 1 example_second (''World'', ''#000000'', ''#FFFFFF'')
      (handleUndo example_pending)) = [[], [example_first], []] \<and>
   historyIndex (handleMouseUp_resolved 1 example_second (''World'', ''#000000'', ''#FFFFFF'')
      (handleUndo example_pending)) = 1 \<and>
   bubbles (handleMouseUp_resolved 1 example_second (''World'', ''#000000'', ''#FFFFFF'')
      (handleUndo example_pending)) = [] \<and>
   historyIndex (handleRedo (handleMouseUp_resolved 1 example_second
      (''World'', ''#000000'', ''#FFFFFF'') (handleUndo example_pending))) = 2"
  using example_pending_state
  by (simp add: handleUndo_def handleRedo_def handleMouseUp_resolved_def commit_def addToHistory_def Let_def)

text \<open>
  In any state with the index inside the history, redo after undo puts the snapshot at
  the index into the store and changes nothing else.
\<close>

lemma undo_redo_snapshot:
  assumes "historyIndex s < length (history s)" and "0 < historyIndex s"
  shows "handleRedo (handleUndo s) = s\<lparr> bubbles := history s ! historyIndex s \<rparr>"
proof -
  from assms have "int (historyIndex s - 1) < int (length (history s)) - 1" by simp
  with assms show ?thesis by (simp add: handleUndo_def handleRedo_def Let_def)
qed

text \<open>
  C3, as the code has it. In every state whose index is greater than 0 and inside the
  history, whatever the tool, the gesture and the link set, undo followed at once by
  redo restores the index, the history and every other cell, and leaves in the store
  the snapshot at the index. The state before the undo is restored exactly when its
  store showed that snapshot, that is, when no uncommitted preview (a draw placeholder,
  a drag or resize in progress) was in the store.
\<close>

theorem undo_then_redo_restores:
  "0 < historyIndex s \<Longrightarrow> historyIndex s < length (history s) \<Longrightarrow>
   handleRedo (handleUndo s) = s\<lparr> bubbles := history s ! historyIndex s \<rparr> \<and>
   historyIndex (handleRedo (handleUndo s)) = historyIndex s \<and>
   history (handleRedo (handleUndo s)) = history s \<and>
   bubbles (handleRedo (handleUndo s)) = history s ! historyIndex s \<and>
   ((handleRedo (handleUndo s) = s) = (bubbles s = history s ! historyIndex s))"
proof -
  assume pos: "0 < historyIndex s" and lt: "historyIndex s < length (history s)"
  note eq = undo_redo_snapshot[OF lt pos]
  have "(s\<lparr> bubbles := history s ! historyIndex s \<rparr> = s) = (bubbles s = history s ! historyIndex s)"
  proof
    assume "s\<lparr> bubbles := history s ! historyIndex s \<rparr> = s"
    then have "bubbles (s\<lparr> bubbles := history s ! historyIndex s \<rparr>) = bubbles s" by simp
    then show "bubbles s = history s ! historyIndex s" by simp
  next
    assume "bubbles s = history s ! historyIndex s"
    then show "s\<lparr> bubbles := history s ! historyIndex s \<rparr> = s" by simp
  qed
  with eq show ?thesis by simp
qed

theorem undo_then_redo_restores_witness:
  "0 < historyIndex example_select \<and>
   historyIndex example_select < length (history example_select) \<and>
   bubbles example_select = history example_select ! historyIndex example_select \<and>
   handleRedo (handleUndo example_select) = example_select"
proof -
  have h: "0 < historyIndex example_select"
    "historyIndex example_select < length (history example_select)"
    by (simp_all add: example_select_def commit_def addToHistory_def initial_editor_def)
  have c: "bubbles example_select = history example_select ! historyIndex example_select"
    by (simp add: example_select_def commit_def addToHistory_def initial_editor_def)
  from undo_then_redo_restores[OF h] c h show ?thesis by simp
qed

text \<open>
  C3 as stated fails while a draw placeholder is in the store: the index is 1, inside
  the history, and undo followed by redo drops the placeholder.
\<close>

theorem placeholder_lost_counterexample:
  "0 < historyIndex example_pending \<and>
   historyIndex example_pending < length (history example_pending) \<and>
   bubbles example_pending = [example_first, example_second] \<and>
   bubbles (handleRedo (handleUndo example_pending)) = [example_first] \<and>
   handleRedo (handleUndo example_pending) \<noteq> example_pending"
proof -
  note st = example_pending_state
  have b: "bubbles (handleRedo (handleUndo example_pending)) = [example_first]"
    using st by (simp add: handleUndo_def handleRedo_def Let_def)
  have "bubbles (handleRedo (handleUndo example_pending)) \<noteq> bubbles example_pending"
    unfolding b using st by simp
  then have "handleRedo (handleUndo example_pending) \<noteq> example_pending" by auto
  with st b show ?thesis by simp
qed

section \<open>Tree mode: lemmas and claims\<close>

lemma same_pair_sym: "same_pair p q (a, b) = same_pair a b (p, q)"
  by (auto simp: same_pair_def)

lemma no_double_links_snoc:
  "no_double_links (cs @ [(a, b)]) = (no_double_links cs \<and> \<not> list_ex (same_pair a b) cs)"
proof (induction cs)
  case Nil
  show ?case by simp
next
  case (Cons x cs)
  obtain p q where x: "x = (p, q)" by (cases x)
  show ?case
    unfolding x using Cons.IH by (auto simp: same_pair_sym[of p q a b])
qed

text \<open>
  \<open>no_double_links\<close> says that the links, read as unordered pairs, are all different.
\<close>

lemma list_ex_same_pair:
  "list_ex (same_pair a b) cs = ({a, b} \<in> (\<lambda>(p, q). {p, q}) ` set cs)"
proof (induction cs)
  case Nil
  show ?case by simp
next
  case (Cons x cs)
  obtain p q where x: "x = (p, q)" by (cases x)
  have "same_pair a b (p, q) = ({a, b} = {p, q})"
    by (auto simp: same_pair_def doubleton_eq_iff)
  with Cons.IH show ?case unfolding x by simp
qed

lemma no_double_links_unordered:
  "no_double_links cs = distinct (map (\<lambda>(p, q). {p, q}) cs)"
proof (induction cs)
  case Nil
  show ?case by simp
next
  case (Cons x cs)
  obtain a b where x: "x = (a, b)" by (cases x)
  show ?case unfolding x using Cons.IH by (simp add: list_ex_same_pair)
qed

lemma handleBubbleConnect_links_ok:
  assumes "links_ok (connections s)"
  shows "links_ok (connections (handleBubbleConnect s i))"
proof (cases "tool s \<noteq> Tree")
  case True
  with assms show ?thesis by (simp add: handleBubbleConnect_def)
next
  case tree: False
  show ?thesis
  proof (cases "activeTreeNode s")
    case None
    with assms tree show ?thesis by (simp add: handleBubbleConnect_def)
  next
    case (Some a)
    show ?thesis
    proof (cases "a = i \<or> list_ex (same_pair a i) (connections s)")
      case True
      with assms tree Some show ?thesis by (auto simp: handleBubbleConnect_def)
    next
      case False
      with assms tree Some show ?thesis
        by (simp add: handleBubbleConnect_def links_ok_def no_self_loops_def
              no_double_links_snoc)
    qed
  qed
qed

lemma clicks_links_ok:
  "links_ok (connections s) \<Longrightarrow> links_ok (connections (foldl handleBubbleConnect s clicks))"
  by (induction clicks arbitrary: s) (simp_all add: handleBubbleConnect_links_ok)

lemma no_double_links_filter: "no_double_links cs \<Longrightarrow> no_double_links (filter P cs)"
proof (induction cs)
  case Nil
  show ?case by simp
next
  case (Cons x cs)
  obtain p q where x: "x = (p, q)" by (cases x)
  from Cons show ?case unfolding x by (auto simp: list_ex_iff)
qed

lemma handleDeleteBubble_links_ok:
  "links_ok (connections s) \<Longrightarrow> links_ok (connections (handleDeleteBubble s i))"
  by (simp add: handleDeleteBubble_def links_ok_def no_self_loops_def no_double_links_filter
        list_all_iff)

lemma saveEdit_links: "connections (saveEdit s) = connections s"
  by (simp add: saveEdit_def commit_def addToHistory_def Let_def split: option.splits)

lemma handleMouseDown_links_ok:
  assumes "links_ok (connections s)"
  shows "links_ok (connections (handleMouseDown s e))"
proof -
  define s1 where "s1 = (if truthy (editingId s) then saveEdit s else s)"
  from assms have s1: "links_ok (connections s1)" and c1: "connections s1 = connections s"
    by (simp_all add: s1_def saveEdit_links)
  from assms s1 show ?thesis
    unfolding handleMouseDown_def Let_def s1_def[symmetric]
    by (simp add: c1 handleBubbleConnect_links_ok split: option.splits)
qed

lemma handleMouseMove_links: "connections (handleMouseMove s e) = connections s"
  by (simp add: handleMouseMove_def Let_def)

lemma handleMouseUp_links: "connections (handleMouseUp r t s) = connections s"
  by (simp add: handleMouseUp_def commit_def addToHistory_def Let_def split: option.splits)

lemma editor_step_links_ok:
  "links_ok (connections s) \<Longrightarrow> links_ok (connections (editor_step s a))"
proof (cases a)
  case (Pointer ev)
  assume "links_ok (connections s)"
  with Pointer show ?thesis
    by (cases ev) (simp_all add: handleMouseDown_links_ok handleMouseMove_links handleMouseUp_links)
next
  case (Delete i)
  assume "links_ok (connections s)"
  with Delete show ?thesis by (simp add: handleDeleteBubble_links_ok)
qed

lemma editor_steps_links_ok:
  "links_ok (connections s) \<Longrightarrow> links_ok (connections (foldl editor_step s acts))"
  by (induction acts arbitrary: s) (simp_all add: editor_step_links_ok)

text \<open>
  C7. The link set never holds a self-loop nor two links between the same unordered
  pair, whatever pointer events and deletions happen, in tree mode or not, from a link
  set that has neither (the empty one, at the start). Clicking a, b, c from an empty link
  set gives [(a,b),(b,c)]; making a the active node afresh (after the active node was
  cleared, by a click on empty space or on the active bubble c itself) and clicking b
  adds nothing.
\<close>

theorem link_set_invariant:
  "(links_ok (connections s) \<longrightarrow>
      links_ok (connections (foldl handleBubbleConnect s clicks)) \<and>
      links_ok (connections (foldl editor_step s acts))) \<and>
   (tool s = Tree \<and> connections s = [] \<and> activeTreeNode s = None \<and> distinct [a, b, c] \<longrightarrow>
      connections (foldl handleBubbleConnect s [a, b, c]) = [(a, b), (b, c)] \<and>
      activeTreeNode (foldl handleBubbleConnect s [a, b, c]) = Some c \<and>
      connections (foldl handleBubbleConnect
         ((foldl handleBubbleConnect s [a, b, c])\<lparr> activeTreeNode := None \<rparr>) [a, b])
        = [(a, b), (b, c)] \<and>
      connections (foldl handleBubbleConnect s [a, b, c, c, a, b]) = [(a, b), (b, c)])"
proof (intro conjI impI)
  assume "links_ok (connections s)"
  then show "links_ok (connections (foldl handleBubbleConnect s clicks))"
    by (rule clicks_links_ok)
next
  assume "links_ok (connections s)"
  then show "links_ok (connections (foldl editor_step s acts))"
    by (rule editor_steps_links_ok)
next
  assume h: "tool s = Tree \<and> connections s = [] \<and> activeTreeNode s = None \<and> distinct [a, b, c]"
  then have ne: "a \<noteq> b" "b \<noteq> a" "a \<noteq> c" "c \<noteq> a" "b \<noteq> c" "c \<noteq> b" by auto
  from h ne show "connections (foldl handleBubbleConnect s [a, b, c]) = [(a, b), (b, c)]"
    by (simp add: handleBubbleConnect_def same_pair_def)
  from h ne show "activeTreeNode (foldl handleBubbleConnect s [a, b, c]) = Some c"
    by (simp add: handleBubbleConnect_def same_pair_def)
  from h ne show "connections (foldl handleBubbleConnect
         ((foldl handleBubbleConnect s [a, b, c])\<lparr> activeTreeNode := None \<rparr>) [a, b])
        = [(a, b), (b, c)]"
    by (simp add: handleBubbleConnect_def same_pair_def)
  from h ne show "connections (foldl handleBubbleConnect s [a, b, c, c, a, b]) = [(a, b), (b, c)]"
    by (simp add: handleBubbleConnect_def same_pair_def)
qed

theorem link_set_invariant_witness:
  "links_ok (connections (initial_editor\<lparr> tool := Tree \<rparr>)) \<and>
   links_ok (connections (foldl handleBubbleConnect (initial_editor\<lparr> tool := Tree \<rparr>)
      [''A'', ''B'', ''A'', ''A'', ''C'', ''B''])) \<and>
   links_ok (connections (foldl editor_step (initial_editor\<lparr> tool := Tree \<rparr>)
      [Pointer (MouseDown (pointer_at 0.25 0.25)), Delete ''A''])) \<and>
   distinct [''A'', ''B'', ''C''] \<and>
   connections (foldl handleBubbleConnect (initial_editor\<lparr> tool := Tree \<rparr>)
      [''A'', ''B'', ''C'']) = [(''A'', ''B''), (''B'', ''C'')] \<and>
   connections (foldl handleBubbleConnect (initial_editor\<lparr> tool := Tree \<rparr>)
      [''A'', ''B'', ''C'', ''C'', ''A'', ''B'']) = [(''A'', ''B''), (''B'', ''C'')]"
  using link_set_invariant
    [where s = "initial_editor\<lparr> tool := Tree \<rparr>"
       and clicks = "[''A'', ''B'', ''A'', ''A'', ''C'', ''B'']"
       and acts = "[Pointer (MouseDown (pointer_at 0.25 0.25)), Delete ''A'']"
       and a = "''A''" and b = "''B''" and c = "''C''"]
  by (simp add: initial_editor_def links_ok_def no_self_loops_def same_pair_def)

lemmas chain_defs = adj_of_def ensure_key_def push_to_def nodes_of_def set_add_def

lemma chains_two_paths:
  assumes "distinct [a, b, c, d, e]" and "b \<noteq> []" and "c \<noteq> []" and "e \<noteq> []"
  shows "chains_of [(a, b), (b, c), (d, e)] = [[a, b, c], [d, e]]"
proof -
  from assms(1) have ne [simp]:
    "a \<noteq> b" "a \<noteq> c" "a \<noteq> d" "a \<noteq> e" "b \<noteq> a" "b \<noteq> c" "b \<noteq> d" "b \<noteq> e"
    "c \<noteq> a" "c \<noteq> b" "c \<noteq> d" "c \<noteq> e" "d \<noteq> a" "d \<noteq> b" "d \<noteq> c" "d \<noteq> e"
    "e \<noteq> a" "e \<noteq> b" "e \<noteq> c" "e \<noteq> d"
    by auto
  note nz [simp] = assms(2-4)
  have adj: "adj_of [(a, b), (b, c), (d, e)] = [(a, [b]), (b, [c]), (c, []), (d, [e]), (e, [])]"
    by (simp add: chain_defs)
  have nodes: "nodes_of [(a, b), (b, c), (d, e)] = [a, b, c, d, e]"
    by (simp add: chain_defs)
  have starts: "starts_of [(a, b), (b, c), (d, e)] = [a, d]"
    by (simp add: starts_of_def nodes inDegree_of_def)
  have c1: "getChain [(a, [b]), (b, [c]), (c, []), (d, [e]), (e, [])] [] a
      = ([a, b, c], [a, b, c])"
    by (simp add: getChain_def set_add_def)
  have c2: "getChain [(a, [b]), (b, [c]), (c, []), (d, [e]), (e, [])] [a, b, c] d
      = ([d, e], [a, b, c, d, e])"
    by (simp add: getChain_def set_add_def)
  show ?thesis
    by (simp add: chains_of_def adj nodes starts start_chain_def c1 c2)
qed

lemma chains_three_cycle:
  assumes "distinct [a, b, c]" and "b \<noteq> []" and "c \<noteq> []"
  shows "chains_of [(a, b), (b, c), (c, a)] = [[a, b, c]]"
proof -
  from assms(1) have ne [simp]: "a \<noteq> b" "a \<noteq> c" "b \<noteq> a" "b \<noteq> c" "c \<noteq> a" "c \<noteq> b"
    by auto
  note nz [simp] = assms(2-3)
  have adj: "adj_of [(a, b), (b, c), (c, a)] = [(a, [b]), (b, [c]), (c, [a])]"
    by (simp add: chain_defs)
  have nodes: "nodes_of [(a, b), (b, c), (c, a)] = [a, b, c]"
    by (simp add: chain_defs)
  have starts: "starts_of [(a, b), (b, c), (c, a)] = []"
    by (simp add: starts_of_def nodes inDegree_of_def)
  have c1: "getChain [(a, [b]), (b, [c]), (c, [a])] [] a = ([a, b, c], [a, b, c])"
    by (simp add: getChain_def set_add_def)
  show ?thesis
    by (simp add: chains_of_def adj nodes starts start_chain_def c1)
qed

text \<open>
  C4. For distinct bubble ids a, b, c, d, e (none of them the empty string, real ids
  never are), the links [(a,b),(b,c),(d,e)] decompose into exactly [[a,b,c],[d,e]], and
  the 3-cycle [(a,b),(b,c),(c,a)] into the single chain [a,b,c]. The walk is a total
  function (its termination is proved for every adjacency list and every visited set),
  so the decomposition returns on these and on all other link sets.
\<close>

theorem chain_decomposition:
  assumes "distinct [a, b, c, d, e]" and "[] \<notin> set [a, b, c, d, e]"
  shows "chains_of [(a, b), (b, c), (d, e)] = [[a, b, c], [d, e]] \<and>
         context_chains [(a, b), (b, c), (d, e)] = [[a, b, c], [d, e]] \<and>
         chains_of [(a, b), (b, c), (c, a)] = [[a, b, c]] \<and>
         context_chains [(a, b), (b, c), (c, a)] = [[a, b, c]]"
proof -
  from assms have nz: "b \<noteq> []" "c \<noteq> []" "e \<noteq> []" by auto
  from assms(1) have d3: "distinct [a, b, c]" by auto
  show ?thesis
    by (simp add: context_chains_def chains_two_paths[OF assms(1) nz]
          chains_three_cycle[OF d3 nz(1,2)])
qed

theorem chain_decomposition_witness:
  "distinct [''A'', ''B'', ''C'', ''D'', ''E''] \<and>
   chains_of [(''A'', ''B''), (''B'', ''C''), (''D'', ''E'')] = [[''A'', ''B'', ''C''], [''D'', ''E'']] \<and>
   chains_of [(''A'', ''B''), (''B'', ''C''), (''C'', ''A'')] = [[''A'', ''B'', ''C'']]"
  using chain_decomposition [of "''A''" "''B''" "''C''" "''D''" "''E''"]
  by simp

section \<open>Context retranslation: lemmas and claim\<close>

lemma walk_appends:
  "walk adj visited path cur = (p, v) \<Longrightarrow> distinct visited \<Longrightarrow>
   \<exists>new. p = path @ new \<and> v = visited @ new \<and> distinct v"
proof (induction adj visited path cur arbitrary: p v rule: walk.induct)
  case (1 adj visited path cur)
  show ?case
  proof (cases "map_of adj cur")
    case None
    with "1.prems" show ?thesis by (simp add: walk.simps[of adj visited path cur])
  next
    case (Some ns)
    show ?thesis
    proof (cases "ns = []")
      case True
      with Some "1.prems" show ?thesis by (simp add: walk.simps[of adj visited path cur])
    next
      case ne: False
      show ?thesis
      proof (cases "find (\<lambda>n. n \<notin> set visited) ns")
        case None
        with Some ne "1.prems" show ?thesis by (simp add: walk.simps[of adj visited path cur])
      next
        case found: (Some nxt)
        show ?thesis
        proof (cases "nxt = []")
          case True
          with Some ne found "1.prems" show ?thesis
            by (simp add: walk.simps[of adj visited path cur])
        next
          case nz: False
          from found have fresh: "nxt \<notin> set visited" by (auto simp: find_Some_iff)
          then have sa: "set_add visited nxt = visited @ [nxt]" by (simp add: set_add_def)
          from Some ne found nz "1.prems"(1)
          have w: "walk adj (set_add visited nxt) (path @ [nxt]) nxt = (p, v)"
            by (simp add: walk.simps[of adj visited path cur])
          from fresh "1.prems"(2) have d: "distinct (set_add visited nxt)" by (simp add: sa)
          from "1.IH"[OF Some ne found nz w d] obtain new where
            "p = (path @ [nxt]) @ new" "v = set_add visited nxt @ new" "distinct v" by blast
          then have "p = path @ (nxt # new) \<and> v = visited @ (nxt # new) \<and> distinct v"
            by (simp add: sa)
          then show ?thesis by blast
        qed
      qed
    qed
  qed
qed

lemma getChain_appends:
  assumes "getChain adj visited n = (p, v)" and "distinct visited" and "n \<notin> set visited"
  shows "v = visited @ p \<and> distinct v"
proof -
  from assms(3) have sa: "set_add visited n = visited @ [n]" by (simp add: set_add_def)
  from assms(1) have w: "walk adj (visited @ [n]) [n] n = (p, v)" by (simp add: getChain_def sa)
  from assms(2,3) have "distinct (visited @ [n])" by simp
  from walk_appends[OF w this] show ?thesis by auto
qed

lemma start_chain_inv:
  assumes "start_chain adj (visited, chs) n = (visited', chs')"
    and "visited = concat chs" and "distinct visited"
  shows "visited' = concat chs' \<and> distinct visited'"
proof (cases "n \<in> set visited")
  case True
  with assms show ?thesis by (auto simp: start_chain_def)
next
  case False
  obtain p v where g: "getChain adj visited n = (p, v)" by (cases "getChain adj visited n")
  from getChain_appends[OF g assms(3) False] have "v = visited @ p" "distinct v" by blast+
  with assms False g show ?thesis by (auto simp: start_chain_def)
qed

lemma foldl_start_chain_inv:
  "foldl (start_chain adj) (visited, chs) ns = (visited', chs') \<Longrightarrow>
   visited = concat chs \<Longrightarrow> distinct visited \<Longrightarrow>
   visited' = concat chs' \<and> distinct visited'"
proof (induction ns arbitrary: visited chs)
  case Nil
  then show ?case by auto
next
  case (Cons n ns)
  obtain v1 c1 where st: "start_chain adj (visited, chs) n = (v1, c1)"
    by (cases "start_chain adj (visited, chs) n")
  from start_chain_inv[OF st Cons.prems(2,3)] have v1: "v1 = concat c1" "distinct v1" by blast+
  from Cons.prems(1) st have "foldl (start_chain adj) (v1, c1) ns = (visited', chs')"
    by simp
  from Cons.IH[OF this v1] show ?case .
qed

lemma chains_disjoint: "distinct (concat (chains_of conns))"
proof -
  obtain v1 c1 where s1: "foldl (start_chain (adj_of conns)) ([], []) (starts_of conns) = (v1, c1)"
    by (cases "foldl (start_chain (adj_of conns)) ([], []) (starts_of conns)")
  obtain v2 c2 where s2: "foldl (start_chain (adj_of conns)) (v1, c1) (nodes_of conns) = (v2, c2)"
    by (cases "foldl (start_chain (adj_of conns)) (v1, c1) (nodes_of conns)")
  have "v1 = concat c1 \<and> distinct v1" by (rule foldl_start_chain_inv[OF s1]) simp_all
  then have "v1 = concat c1" "distinct v1" by blast+
  from foldl_start_chain_inv[OF s2 this] have "v2 = concat c2" "distinct v2" by blast+
  moreover have "chains_of conns = c2" by (simp add: chains_of_def s1 s2)
  ultimately show ?thesis by simp
qed

lemma chains_share_no_node:
  assumes "c \<in> set (chains_of conns)" and "c' \<in> set (chains_of conns)"
    and "x \<in> set c" and "x \<in> set c'"
  shows "c = c'"
  using chains_disjoint[of conns] assms
  by (metis distinct_concat_iff disjoint_iff)

lemma findIndex_SomeD: "findIndex P xs = Some i \<Longrightarrow> i < length xs \<and> P (xs ! i)"
  by (induction xs arbitrary: i) (auto split: if_splits)

lemma apply_translation_ids: "map id' (apply_translation u t) = map id' u"
proof (cases "findIndex (\<lambda>b. id' b = fst t) u")
  case None
  then show ?thesis by (simp add: apply_translation_def)
next
  case (Some idx)
  from findIndex_SomeD[OF Some] have "idx < length u" by simp
  then have "(map id' u)[idx := id' (u ! idx)] = map id' u"
    by (metis list_update_id nth_map)
  with Some show ?thesis by (simp add: apply_translation_def map_update)
qed

lemma foldl_apply_ids: "map id' (foldl apply_translation u ts) = map id' u"
  by (induction ts arbitrary: u) (simp_all add: apply_translation_ids)

lemma process_chain_failed:
  "generate (chainData bs c) = Raised \<Longrightarrow> process_chain generate bs u c = u"
  by (simp add: process_chain_def retranslateContextAware_def)

lemma findIndex_ids:
  "map id' u = map id' v \<Longrightarrow> findIndex (\<lambda>b. id' b = i) u = findIndex (\<lambda>b. id' b = i) v"
proof (induction u arbitrary: v)
  case Nil
  then show ?case by simp
next
  case (Cons a u)
  then obtain b w where v: "v = b # w" by (cases v) auto
  with Cons.prems have "id' a = id' b" "map id' u = map id' w" by simp_all
  with Cons.IH[of w] show ?case unfolding v by simp
qed

lemma findIndex_None_D: "findIndex P xs = None \<Longrightarrow> j < length xs \<Longrightarrow> \<not> P (xs ! j)"
proof (induction xs arbitrary: j)
  case Nil
  then show ?case by simp
next
  case (Cons x xs)
  then show ?case by (cases j) (auto split: if_splits)
qed

lemma bubble_text_id: "b\<lparr> text' := text' b \<rparr> = b"
  by simp

lemma foldl_apply_text:
  "j < length u \<Longrightarrow>
   foldl apply_translation u ts ! j = (u ! j)\<lparr> text' := answered_text ts u j \<rparr>"
proof (induction ts rule: rev_induct)
  case Nil
  show ?case by (simp add: answered_text_def)
next
  case (snoc x ts)
  obtain i t where x: "x = (i, t)" by (cases x)
  let ?v = "foldl apply_translation u ts"
  have ids: "map id' ?v = map id' u" by (rule foldl_apply_ids)
  then have len: "length ?v = length u" by (metis length_map)
  from snoc have vj: "?v ! j = (u ! j)\<lparr> text' := answered_text ts u j \<rparr>" by simp
  have fi: "findIndex (\<lambda>b. id' b = i) ?v = findIndex (\<lambda>b. id' b = i) u"
    by (rule findIndex_ids[OF ids])
  show ?case
  proof (cases "findIndex (\<lambda>b. id' b = i) u")
    case None
    from findIndex_None_D[OF None snoc.prems] have ne: "id' (u ! j) \<noteq> i" .
    from None fi have "apply_translation ?v (i, t) = ?v" by (simp add: apply_translation_def)
    moreover from ne have "answered_text (ts @ [(i, t)]) u j = answered_text ts u j"
      by (simp add: answered_text_def)
    ultimately show ?thesis using vj x by simp
  next
    case (Some k)
    from findIndex_SomeD[OF Some] have k: "k < length u" "id' (u ! k) = i" by simp_all
    from Some fi have ap: "apply_translation ?v (i, t) = ?v[k := (?v ! k)\<lparr> text' := t \<rparr>]"
      by (simp add: apply_translation_def)
    show ?thesis
    proof (cases "j = k")
      case True
      from k Some True have first: "findIndex (\<lambda>b. id' b = id' (u ! j)) u = Some j" by simp
      from True k have "answered_text (ts @ [(i, t)]) u j = t"
        using first by (simp add: answered_text_def)
      moreover from True len k vj have "(?v[k := (?v ! k)\<lparr> text' := t \<rparr>]) ! j = (u ! j)\<lparr> text' := t \<rparr>"
        by simp
      ultimately show ?thesis using ap x by simp
    next
      case False
      have "answered_text (ts @ [(i, t)]) u j = answered_text ts u j"
      proof (cases "id' (u ! j) = i")
        case True
        with Some False have "findIndex (\<lambda>b. id' b = id' (u ! j)) u \<noteq> Some j" by simp
        then show ?thesis by (simp add: answered_text_def)
      next
        case False
        then show ?thesis by (simp add: answered_text_def)
      qed
      moreover from False have "(?v[k := (?v ! k)\<lparr> text' := t \<rparr>]) ! j = ?v ! j" by simp
      ultimately show ?thesis using ap x vj by simp
    qed
  qed
qed

lemma process_chain_answers:
  "process_chain generate bs u c = foldl apply_translation u (pass_answers generate bs [c])"
  by (simp add: process_chain_def pass_answers_def retranslateContextAware_def
        split: gen_result.splits)

lemma pass_answers_Cons:
  "pass_answers generate bs (c # chs) = pass_answers generate bs [c] @ pass_answers generate bs chs"
  by (simp add: pass_answers_def)

lemma pass_is_answers:
  "foldl (process_chain generate bs) u chs = foldl apply_translation u (pass_answers generate bs chs)"
proof (induction chs arbitrary: u)
  case Nil
  show ?case by (simp add: pass_answers_def)
next
  case (Cons c chs)
  have "foldl (process_chain generate bs) u (c # chs) =
      foldl (process_chain generate bs) (process_chain generate bs u c) chs" by simp
  also have "\<dots> = foldl apply_translation (process_chain generate bs u c)
      (pass_answers generate bs chs)" by (rule Cons.IH)
  also have "\<dots> = foldl apply_translation u
      (pass_answers generate bs [c] @ pass_answers generate bs chs)"
    by (simp only: process_chain_answers foldl_append)
  finally show ?case by (simp only: pass_answers_Cons[of generate bs c chs])
qed

lemma pass_answers_skip_failed:
  "pass_answers generate bs chs =
   pass_answers generate bs (filter (\<lambda>c. generate (chainData bs c) \<noteq> Raised) chs)"
proof (induction chs)
  case Nil
  show ?case by simp
next
  case (Cons c chs)
  show ?case
  proof (cases "generate (chainData bs c) = Raised")
    case True
    then have "pass_answers generate bs [c] = []" by (simp add: pass_answers_def)
    with True Cons.IH show ?thesis by (simp add: pass_answers_Cons[of generate bs c chs])
  next
    case False
    with Cons.IH show ?thesis
      by (simp add: pass_answers_Cons[of generate bs c chs]
            pass_answers_Cons[of generate bs c "filter (\<lambda>c. generate (chainData bs c) \<noteq> Raised) chs"])
  qed
qed

lemma unanswered_text:
  "id' (bs ! j) \<notin> fst ` set answers \<Longrightarrow> answered_text answers bs j = text' (bs ! j)"
proof -
  assume "id' (bs ! j) \<notin> fst ` set answers"
  then have "map_of (rev answers) (id' (bs ! j)) = None"
    by (simp add: map_of_eq_None_iff)
  then show ?thesis by (simp add: answered_text_def)
qed

lemma example_linked_chains:
  "chains_of (connections example_linked) = [[''A'', ''B''], [''C'', ''D'']]"
  by (simp add: example_linked_def chains_of_def chain_defs starts_of_def inDegree_of_def
        start_chain_def getChain_def)

lemma pass_answers_mem:
  "(i, t) \<in> set (pass_answers generate bs chs) \<Longrightarrow>
   \<exists>c ts. c \<in> set chs \<and> generate (chainData bs c) = Translations ts \<and> (i, t) \<in> set ts"
  by (auto simp: pass_answers_def split: gen_result.splits) (metis)

text \<open>
  When every answer names only bubbles of the chain it was asked about, no answer names
  a bubble of a failed chain, because no two chains share a node.
\<close>

lemma failed_chain_not_named:
  assumes c: "c \<in> set (chains_of conns)" and raised: "generate (chainData bs c) = Raised"
    and mem: "i \<in> set c"
    and local: "\<forall>c' \<in> set (chains_of conns). \<forall>ts.
        generate (chainData bs c') = Translations ts \<longrightarrow> fst ` set ts \<subseteq> set c'"
  shows "i \<notin> fst ` set (pass_answers generate bs (chains_of conns))"
proof
  assume "i \<in> fst ` set (pass_answers generate bs (chains_of conns))"
  then obtain t where "(i, t) \<in> set (pass_answers generate bs (chains_of conns))" by auto
  from pass_answers_mem[OF this] obtain c' ts where
    c': "c' \<in> set (chains_of conns)" and g: "generate (chainData bs c') = Translations ts"
    and it: "(i, t) \<in> set ts" by blast
  from local c' g it have "i \<in> set c'" by force
  from chains_share_no_node[OF c c' mem this] have "c = c'" .
  with raised g show False by simp
qed

text \<open>
  C8, as the code has it. A pass over a non-empty link set, with nothing committed,
  undone or previewed while its requests were awaited, commits once: one snapshot is
  appended after the current index and the index advances by one. The snapshot is the
  store with the answers of all chains matched by id against the whole store, in the
  order of the chains, a later answer for an id overriding an earlier one; no bubble
  is added or removed and only texts change. A chain whose request failed contributes
  no answer and does not stop the chains after it: the answers are those of the
  chains that did not fail. A bubble that no answer names is unchanged; so a bubble of
  a failed chain keeps its text unless the answer of another chain names its id.
\<close>

theorem retranslation_batch:
  assumes "connections s0 \<noteq> []"
    and "history s = history s0" and "historyIndex s = historyIndex s0"
    and "bubbles s = bubbles s0"
  shows
    "(let s' = handleRetranslateLinked generate s0 s; bs = bubbles s0;
          chs = chains_of (connections s0); answers = pass_answers generate bs chs
      in history s' = take (historyIndex s + 1) (history s) @ [bubbles s'] \<and>
         historyIndex s' = historyIndex s + 1 \<and>
         length (bubbles s') = length bs \<and>
         (\<forall>j < length bs. bubbles s' ! j = (bs ! j)\<lparr> text' := answered_text answers bs j \<rparr>) \<and>
         answers = pass_answers generate bs
                     (filter (\<lambda>c. generate (chainData bs c) \<noteq> Raised) chs) \<and>
         (\<forall>j < length bs. id' (bs ! j) \<notin> fst ` set answers \<longrightarrow> bubbles s' ! j = bs ! j))"
proof -
  let ?bs = "bubbles s0"
  let ?chs = "chains_of (connections s0)"
  let ?answers = "pass_answers generate ?bs ?chs"
  let ?out = "foldl apply_translation ?bs ?answers"
  have b: "bubbles (handleRetranslateLinked generate s0 s) = ?out"
    using assms(1) by (simp add: handleRetranslateLinked_def addToHistory_def Let_def pass_is_answers)
  have h: "history (handleRetranslateLinked generate s0 s) =
      take (historyIndex s + 1) (history s) @ [?out]"
    using assms(1,3)
    by (simp add: handleRetranslateLinked_def addToHistory_def Let_def pass_is_answers)
  have i: "historyIndex (handleRetranslateLinked generate s0 s) = historyIndex s + 1"
    using assms(1) by (simp add: handleRetranslateLinked_def addToHistory_def Let_def)
  have len: "length ?out = length ?bs"
    using foldl_apply_ids[of ?bs ?answers] by (metis length_map)
  have texts: "?out ! j = (?bs ! j)\<lparr> text' := answered_text ?answers ?bs j \<rparr>"
    if "j < length ?bs" for j
    using that by (rule foldl_apply_text)
  have frame: "?out ! j = ?bs ! j"
    if "j < length ?bs" and "id' (?bs ! j) \<notin> fst ` set ?answers" for j
    using texts[OF that(1)] unanswered_text[OF that(2)] by simp
  show ?thesis
    unfolding Let_def b h i
    using len texts frame pass_answers_skip_failed[of generate ?bs ?chs]
    by simp
qed

theorem retranslation_batch_witness:
  "connections example_linked \<noteq> [] \<and>
   history (handleRetranslateLinked_start example_linked) = history example_linked \<and>
   historyIndex (handleRetranslateLinked_start example_linked) = historyIndex example_linked \<and>
   bubbles (handleRetranslateLinked_start example_linked) = bubbles example_linked \<and>
   historyIndex (handleRetranslateLinked example_generate example_linked
      (handleRetranslateLinked_start example_linked)) = 2 \<and>
   length (history (handleRetranslateLinked example_generate example_linked
      (handleRetranslateLinked_start example_linked))) = 3 \<and>
   text' (bubbles (handleRetranslateLinked example_generate example_linked
      (handleRetranslateLinked_start example_linked)) ! 0) = ''...'' \<and>
   text' (bubbles (handleRetranslateLinked example_generate example_linked
      (handleRetranslateLinked_start example_linked)) ! 2) = ''see'' \<and>
   text' (bubbles (handleRetranslateLinked example_generate example_linked
      (handleRetranslateLinked_start example_linked)) ! 3) = ''dee''"
proof -
  let ?s = "handleRetranslateLinked_start example_linked"
  let ?s' = "handleRetranslateLinked example_generate example_linked ?s"
  let ?bs = "bubbles example_linked"
  have ne: "connections example_linked \<noteq> []" by (simp add: example_linked_def)
  have q: "history ?s = history example_linked" "historyIndex ?s = historyIndex example_linked"
    "bubbles ?s = bubbles example_linked"
    by (simp_all add: handleRetranslateLinked_start_def)
  have idx: "historyIndex ?s = 1" "length (history ?s) = 2" "length ?bs = 4"
    unfolding q
    by (simp_all add: example_linked_def commit_def addToHistory_def initial_editor_def)
  have answers: "pass_answers example_generate ?bs (chains_of (connections example_linked))
      = [(''C'', ''see''), (''D'', ''dee'')]"
    unfolding example_linked_chains
    by (simp add: pass_answers_def example_generate_def chainData_def example_linked_def
          commit_def addToHistory_def tempBubble_def)
  note t = retranslation_batch[OF ne q, of example_generate, unfolded Let_def answers]
  from t have h: "history ?s' = take (historyIndex ?s + 1) (history ?s) @ [bubbles ?s']"
    and i: "historyIndex ?s' = historyIndex ?s + 1"
    and b: "\<forall>j < length ?bs. bubbles ?s' ! j =
        (?bs ! j)\<lparr> text' := answered_text [(''C'', ''see''), (''D'', ''dee'')] ?bs j \<rparr>"
    by blast+
  from b idx(3) have
    "text' (bubbles ?s' ! 0) = answered_text [(''C'', ''see''), (''D'', ''dee'')] ?bs 0"
    "text' (bubbles ?s' ! 2) = answered_text [(''C'', ''see''), (''D'', ''dee'')] ?bs 2"
    "text' (bubbles ?s' ! 3) = answered_text [(''C'', ''see''), (''D'', ''dee'')] ?bs 3"
    by simp_all
  then have "text' (bubbles ?s' ! 0) = ''...''" "text' (bubbles ?s' ! 2) = ''see''"
    "text' (bubbles ?s' ! 3) = ''dee''"
    by (simp_all add: answered_text_def example_linked_def commit_def addToHistory_def
          tempBubble_def)
  with ne q h i idx show ?thesis by simp
qed

text \<open>
  C8 as stated fails: the chain A, B fails, the answer for the chain C, D names A, and
  the text of A is replaced.
\<close>

theorem sibling_answer_counterexample:
  "chains_of (connections example_linked) = [[''A'', ''B''], [''C'', ''D'']] \<and>
   example_cross (chainData (bubbles example_linked) [''A'', ''B'']) = Raised \<and>
   map id' (bubbles example_linked) = [''A'', ''B'', ''C'', ''D''] \<and>
   map text' (bubbles example_linked) = [''...'', ''...'', ''...'', ''...''] \<and>
   map text' (bubbles (handleRetranslateLinked example_cross example_linked
      (handleRetranslateLinked_start example_linked))) = [''cross'', ''...'', ''see'', ''...'']"
  unfolding handleRetranslateLinked_def Let_def example_linked_chains
  by (simp add: example_linked_def example_cross_def chainData_def process_chain_def
        retranslateContextAware_def apply_translation_def tempBubble_def commit_def
        addToHistory_def handleRetranslateLinked_start_def)

section \<open>Font sizing: lemmas and claim\<close>

lemma base_size_matches_spec:
  "0 \<le> W * H \<Longrightarrow> calculateBaseFontSize N W H = Some (spec_baseSize N W H)"
proof -
  assume nn: "0 \<le> W * H"
  have d: "real (if N = 0 then 1 else N) = real (max N 1)" by (cases N) simp_all
  have "0 < real (max N 1)" by simp
  with nn have "\<not> W * H / real (max N 1) < 0" by (simp add: not_less)
  then show ?thesis
    unfolding calculateBaseFontSize_def spec_baseSize_def Let_def d
    by (simp add: min_def max_def)
qed

lemma preview_export_agree: "realFontSizePx (Some w) b = scaledFontSize w b"
  by (simp add: realFontSizePx_def scaledFontSize_def Let_def)

text \<open>
  C9. For a text of N characters in a box of width W and height H (of non-negative
  area, as every box with xmin < xmax and ymin < ymax has), the base font size is
  sqrt (W * H / max N 1) * 0.6 clamped to [10, 50]; for a bubble whose fontSizeScale is
  set (and not zero), the exporter's and the preview's pixel size is that base size
  times targetPixelWidth / 1000 times the fontSizeScale.
\<close>

theorem font_size_formula:
  "(0 \<le> W * H \<longrightarrow>
      calculateBaseFontSize N W H = Some (spec_baseSize N W H) \<and>
      10 \<le> spec_baseSize N W H \<and> spec_baseSize N W H \<le> 50) \<and>
   (0 \<le> W * H \<and> length (text' b) = N \<and> xmax (box b) - xmin (box b) = W \<and>
    ymax (box b) - ymin (box b) = H \<and> fontSizeScale b = Some k \<and> k \<noteq> 0 \<longrightarrow>
      scaledFontSize targetPixelWidth b = Some (spec_pixelSize N W H targetPixelWidth k) \<and>
      realFontSizePx (Some targetPixelWidth) b = Some (spec_pixelSize N W H targetPixelWidth k))"
proof -
  have range: "10 \<le> spec_baseSize N W H \<and> spec_baseSize N W H \<le> 50"
    by (simp add: spec_baseSize_def Let_def)
  show ?thesis
    using range
    by (auto simp: base_size_matches_spec preview_export_agree scaledFontSize_def Let_def
          spec_pixelSize_def fontSizeScale_or_1_def)
qed

lemma sqrt_2500: "sqrt 2500 = 50"
  using real_sqrt_abs[of 50] by simp

theorem font_size_formula_witness:
  "(0::real) \<le> 125 * 100 \<and>
   calculateBaseFontSize 5 125 100 = Some 30 \<and>
   spec_baseSize 5 125 100 = 30 \<and>
   scaledFontSize 2000
     ((tempBubble ''1'' \<lparr>ymin = 100, xmin = 125, ymax = 200, xmax = 250\<rparr> rectangle)
        \<lparr> text' := ''Hello'', fontSizeScale := Some 1.5 \<rparr>) = Some 90"
  using font_size_formula [where W = 125 and H = 100 and N = 5 and k = "1.5"
      and targetPixelWidth = 2000 and b =
      "(tempBubble ''1'' \<lparr>ymin = 100, xmin = 125, ymax = 200, xmax = 250\<rparr> rectangle)
        \<lparr> text' := ''Hello'', fontSizeScale := Some 1.5 \<rparr>"]
  by (simp add: tempBubble_def spec_pixelSize_def spec_baseSize_def sqrt_2500)

section \<open>Pointer gestures: lemmas and claims\<close>

lemma drag_branch:
  assumes "\<not> isPanning s" and "\<not> (truthy (resizingId s) \<and> truthy (resizeHandle s))"
    and "truthy (draggingId s)" and "dragOffset s \<noteq> None"
  shows "handleMouseMove s e =
     s\<lparr> isDragging := True,
        bubbles := map (\<lambda>b. if Some (id' b) \<noteq> draggingId s then b
                            else b\<lparr> box := drag_box (getRelativeCoords e) (the (dragOffset s)) (box b) \<rparr>)
                     (bubbles s) \<rparr>"
  using assms by (auto simp: handleMouseMove_def Let_def)

text \<open>
  The frame of a pointer-move in a drag gesture, which does not depend on the
  arithmetic: the number of bubbles is kept, every bubble other than the dragged one
  is unchanged, and the dragged bubble keeps every field but its box.
\<close>

lemma drag_move_frame:
  assumes "\<not> isPanning s" and "\<not> (truthy (resizingId s) \<and> truthy (resizeHandle s))"
    and "truthy (draggingId s)" and "dragOffset s \<noteq> None"
  shows "length (bubbles (handleMouseMove s e)) = length (bubbles s) \<and>
    (\<forall>j < length (bubbles s).
       (Some (id' (bubbles s ! j)) \<noteq> draggingId s \<longrightarrow>
          bubbles (handleMouseMove s e) ! j = bubbles s ! j) \<and>
       (Some (id' (bubbles s ! j)) = draggingId s \<longrightarrow>
          (bubbles (handleMouseMove s e) ! j)\<lparr> box := box (bubbles s ! j) \<rparr> = bubbles s ! j))"
  unfolding drag_branch[OF assms]
  by simp

lemma move_keeps_history:
  "history (handleMouseMove s e) = history s \<and> historyIndex (handleMouseMove s e) = historyIndex s"
  by (simp add: handleMouseMove_def Let_def)

lemma drag_move_state:
  assumes "\<not> isPanning s" and "\<not> truthy (resizingId s)" and "truthy (draggingId s)"
    and "dragOffset s \<noteq> None"
  shows "\<not> isPanning (handleMouseMove s e) \<and> \<not> truthy (resizingId (handleMouseMove s e)) \<and>
    truthy (draggingId (handleMouseMove s e)) \<and> dragOffset (handleMouseMove s e) \<noteq> None \<and>
    isDragging (handleMouseMove s e)"
proof -
  from assms(2) have "\<not> (truthy (resizingId s) \<and> truthy (resizeHandle s))" by simp
  from drag_branch[OF assms(1) this assms(3,4)] assms show ?thesis by simp
qed

lemma drag_moves_state:
  assumes "\<not> isPanning s" and "\<not> truthy (resizingId s)" and "truthy (draggingId s)"
    and "dragOffset s \<noteq> None"
  shows "\<not> isPanning (foldl handleMouseMove s ms) \<and>
    \<not> truthy (resizingId (foldl handleMouseMove s ms)) \<and>
    truthy (draggingId (foldl handleMouseMove s ms)) \<and>
    dragOffset (foldl handleMouseMove s ms) \<noteq> None \<and>
    (ms \<noteq> [] \<longrightarrow> isDragging (foldl handleMouseMove s ms))"
  using assms
proof (induction ms arbitrary: s rule: rev_induct)
  case Nil
  then show ?case by simp
next
  case (snoc m ms)
  from snoc.IH[OF snoc.prems] drag_move_state[of "foldl handleMouseMove s ms" m]
  show ?case by simp
qed

lemma moves_keep_history:
  "history (foldl handleMouseMove s ms) = history s \<and>
   historyIndex (foldl handleMouseMove s ms) = historyIndex s"
  by (induction ms arbitrary: s) (simp_all add: move_keeps_history)

text \<open>
  The resizing branch of \<open>handleMouseUp\<close> has no such test: releasing a resize handle
  commits the store as it is, moved or not.
\<close>

lemma resize_release_commits:
  "\<not> isPanning s \<Longrightarrow> truthy (resizingId s) \<Longrightarrow>
   history (handleMouseUp r t s) = take (historyIndex s + 1) (history s) @ [bubbles s] \<and>
   historyIndex (handleMouseUp r t s) = historyIndex s + 1"
  by (simp add: handleMouseUp_def commit_def addToHistory_def)

text \<open>
  C6, as the code has it. No pointer-move commits. In a drag gesture (the state a
  pointer-down on a bubble body leaves), pointer-up without any pointer-move in between
  commits nothing and leaves the store as it was; pointer-up after one or more
  pointer-moves commits the store once, whether or not the box differs from the box at
  the start of the gesture.
\<close>

theorem drag_commits_iff_moved:
  assumes "\<not> isPanning s" and "\<not> truthy (resizingId s)" and "truthy (draggingId s)"
    and "dragOffset s \<noteq> None" and "\<not> isDragging s"
  shows
   "history (handleMouseMove s0 e) = history s0 \<and>
    historyIndex (handleMouseMove s0 e) = historyIndex s0 \<and>
    history (handleMouseUp r t s) = history s \<and>
    historyIndex (handleMouseUp r t s) = historyIndex s \<and>
    bubbles (handleMouseUp r t s) = bubbles s \<and>
    history (handleMouseUp r t (foldl handleMouseMove s (m # ms))) =
      take (historyIndex s + 1) (history s) @ [bubbles (foldl handleMouseMove s (m # ms))] \<and>
    historyIndex (handleMouseUp r t (foldl handleMouseMove s (m # ms))) = historyIndex s + 1 \<and>
    bubbles (handleMouseUp r t (foldl handleMouseMove s (m # ms))) =
      bubbles (foldl handleMouseMove s (m # ms))"
proof -
  let ?s1 = "foldl handleMouseMove s (m # ms)"
  note st = drag_moves_state[OF assms(1-4), of "m # ms"]
  note hi = moves_keep_history[of s "m # ms"]
  have a: "handleMouseUp r t s = s\<lparr> draggingId := None, dragOffset := None, isDragging := False \<rparr>"
    using assms by (simp add: handleMouseUp_def)
  have b: "handleMouseUp r t ?s1 =
      (addToHistory (historyIndex ?s1) ?s1 (bubbles ?s1))\<lparr> draggingId := None, dragOffset := None,
         isDragging := False \<rparr>"
    using st by (simp add: handleMouseUp_def)
  show ?thesis
    unfolding a b using hi by (simp add: move_keeps_history commit_def addToHistory_def)
qed

theorem drag_commits_iff_moved_witness:
  "\<not> isPanning (handleMouseDown example_select (pointer_at 0.25 0.25)) \<and>
   \<not> truthy (resizingId (handleMouseDown example_select (pointer_at 0.25 0.25))) \<and>
   truthy (draggingId (handleMouseDown example_select (pointer_at 0.25 0.25))) \<and>
   dragOffset (handleMouseDown example_select (pointer_at 0.25 0.25)) \<noteq> None \<and>
   \<not> isDragging (handleMouseDown example_select (pointer_at 0.25 0.25)) \<and>
   length (history (handleMouseUp True ''3'' (handleMouseDown example_select (pointer_at 0.25 0.25)))) = 2 \<and>
   length (history (handleMouseUp True ''3''
      (foldl handleMouseMove (handleMouseDown example_select (pointer_at 0.25 0.25))
         [pointer_at 0.5 0.5]))) = 3"
proof -
  let ?s = "handleMouseDown example_select (pointer_at 0.25 0.25)"
  have s: "?s = example_select\<lparr> draggingId := Some ''1'', dragOffset := Some (0.125, 0.125),
      isDragging := False \<rparr>"
    by (simp add: handleMouseDown_def example_select_def pointer_at_def getRelativeCoords_def
          commit_def addToHistory_def initial_editor_def tempBubble_def example_box_def hit_def Let_def)
  have h: "\<not> isPanning ?s" "\<not> truthy (resizingId ?s)" "truthy (draggingId ?s)"
    "dragOffset ?s \<noteq> None" "\<not> isDragging ?s"
    unfolding s by (simp_all add: example_select_def commit_def addToHistory_def initial_editor_def)
  have hs: "length (history ?s) = 2" "historyIndex ?s = 1"
    unfolding s by (simp_all add: example_select_def commit_def addToHistory_def initial_editor_def)
  from drag_commits_iff_moved[OF h, of ?s "pointer_at 0.5 0.5" True "''3''" "pointer_at 0.5 0.5" "[]"]
  have "history (handleMouseUp True ''3'' ?s) = history ?s"
    and "history (handleMouseUp True ''3'' (foldl handleMouseMove ?s [pointer_at 0.5 0.5])) =
      take (historyIndex ?s + 1) (history ?s) @ [bubbles (foldl handleMouseMove ?s [pointer_at 0.5 0.5])]"
    by blast+
  with hs h show ?thesis by simp
qed

text \<open>
  C6 as stated fails: dragging bubble 1 away and back leaves every box as it was at the
  start of the gesture, and pointer-up still appends a history entry.
\<close>

theorem drag_back_commits_counterexample:
  "bubbles (foldl pointer_step example_select
      [MouseDown (pointer_at 0.25 0.25), MouseMove (pointer_at 0.5 0.5),
       MouseMove (pointer_at 0.25 0.25), MouseUp True ''3'']) = bubbles example_select \<and>
   history (foldl pointer_step example_select
      [MouseDown (pointer_at 0.25 0.25), MouseMove (pointer_at 0.5 0.5),
       MouseMove (pointer_at 0.25 0.25), MouseUp True ''3''])
     = history example_select @ [bubbles example_select] \<and>
   historyIndex (foldl pointer_step example_select
      [MouseDown (pointer_at 0.25 0.25), MouseMove (pointer_at 0.5 0.5),
       MouseMove (pointer_at 0.25 0.25), MouseUp True ''3'']) = historyIndex example_select + 1"
  by (simp add: handleMouseDown_def handleMouseMove_def handleMouseUp_def example_select_def
        pointer_at_def getRelativeCoords_def commit_def addToHistory_def initial_editor_def tempBubble_def
        example_box_def hit_def drag_box_def Let_def)

lemma resize_box_ordered: "box_ordered bx \<Longrightarrow> box_ordered (resize_box h x y bx)"
  by (auto simp: box_ordered_def resize_box_def min_less_iff_disj less_max_iff_disj)

lemma drag_box_ordered: "box_ordered bx \<Longrightarrow> box_ordered (drag_box c off bx)"
  by (simp add: box_ordered_def drag_box_def Let_def)

lemma resize_box_roomy:
  "0 \<le> x \<Longrightarrow> x \<le> 1000 \<Longrightarrow> 0 \<le> y \<Longrightarrow> y \<le> 1000 \<Longrightarrow> box_roomy bx \<Longrightarrow>
   box_roomy (resize_box h x y bx)"
  by (auto simp: box_roomy_def box_in_range_def resize_box_def min_def max_def)

lemma coords_range:
  "0 \<le> fst (getRelativeCoords e) * 1000 \<and> fst (getRelativeCoords e) * 1000 \<le> 1000 \<and>
   0 \<le> snd (getRelativeCoords e) * 1000 \<and> snd (getRelativeCoords e) * 1000 \<le> 1000"
  by (simp add: getRelativeCoords_def)

lemma addToHistory_bubbles: "bubbles (addToHistory k s bs) = bs" "bubbles (commit s bs) = bs"
  by (simp_all add: commit_def addToHistory_def)

lemma handleBubbleConnect_bubbles: "bubbles (handleBubbleConnect s i) = bubbles s"
  by (simp add: handleBubbleConnect_def Let_def split: option.splits)

lemma resize_branch:
  assumes "\<not> isPanning s" and "truthy (resizingId s)" and "truthy (resizeHandle s)"
  shows "handleMouseMove s e =
     s\<lparr> bubbles := map (\<lambda>b. if Some (id' b) \<noteq> resizingId s then b
                            else b\<lparr> box := resize_box (the (resizeHandle s))
                                   (fst (getRelativeCoords e) * 1000)
                                   (snd (getRelativeCoords e) * 1000) (box b) \<rparr>)
                     (bubbles s) \<rparr>"
  using assms by (simp add: handleMouseMove_def Let_def)

lemma handleMouseMove_nth_ordered:
  "j < length (bubbles s) \<Longrightarrow> box_ordered (box (bubbles s ! j)) \<Longrightarrow>
   j < length (bubbles (handleMouseMove s e)) \<and> box_ordered (box (bubbles (handleMouseMove s e) ! j))"
  by (simp add: handleMouseMove_def Let_def resize_box_ordered drag_box_ordered)

lemma saveEdit_boxes: "map box (bubbles (saveEdit s)) = map box (bubbles s)"
  by (simp add: saveEdit_def Let_def addToHistory_bubbles comp_def split: option.splits)

lemma handleMouseDown_boxes: "map box (bubbles (handleMouseDown s e)) = map box (bubbles s)"
proof -
  define s1 where "s1 = (if truthy (editingId s) then saveEdit s else s)"
  have "map box (bubbles s1) = map box (bubbles s)" by (simp add: s1_def saveEdit_boxes)
  then show ?thesis
    unfolding handleMouseDown_def Let_def s1_def[symmetric]
    by (simp add: handleBubbleConnect_bubbles split: option.splits)
qed

lemma handleMouseDown_nth_box:
  assumes "j < length (bubbles s)"
  shows "j < length (bubbles (handleMouseDown s e)) \<and>
         box (bubbles (handleMouseDown s e) ! j) = box (bubbles s ! j)"
proof -
  from handleMouseDown_boxes[of s e]
  have len: "length (bubbles (handleMouseDown s e)) = length (bubbles s)" by (metis length_map)
  with assms handleMouseDown_boxes[of s e] show ?thesis by (metis nth_map)
qed

lemma handleMouseUp_nth:
  "j < length (bubbles s) \<Longrightarrow>
   j < length (bubbles (handleMouseUp r t s)) \<and> bubbles (handleMouseUp r t s) ! j = bubbles s ! j"
  by (simp add: handleMouseUp_def Let_def addToHistory_bubbles nth_append split: option.splits)

lemma pointer_step_nth_ordered:
  assumes "j < length (bubbles s)" and "box_ordered (box (bubbles s ! j))"
  shows "j < length (bubbles (pointer_step s ev)) \<and> box_ordered (box (bubbles (pointer_step s ev) ! j))"
proof (cases ev)
  case (MouseDown e)
  with assms handleMouseDown_nth_box[OF assms(1), of e] show ?thesis by simp
next
  case (MouseMove e)
  with handleMouseMove_nth_ordered[OF assms] show ?thesis by simp
next
  case (MouseUp r t)
  with assms handleMouseUp_nth[OF assms(1), of r t] show ?thesis by simp
qed

lemma pointer_steps_nth_ordered:
  "j < length (bubbles s) \<Longrightarrow> box_ordered (box (bubbles s ! j)) \<Longrightarrow>
   j < length (bubbles (foldl pointer_step s evs)) \<and>
   box_ordered (box (bubbles (foldl pointer_step s evs) ! j))"
proof (induction evs arbitrary: s)
  case Nil
  then show ?case by simp
next
  case (Cons ev evs)
  from pointer_step_nth_ordered[OF Cons.prems, of ev] Cons.IH[of "pointer_step s ev"]
  show ?case by simp
qed

lemma resize_move_nth_roomy:
  assumes "\<not> isPanning s" and "truthy (resizingId s)" and "truthy (resizeHandle s)"
    and "j < length (bubbles s)" and "box_roomy (box (bubbles s ! j))"
  shows "\<not> isPanning (handleMouseMove s e) \<and> truthy (resizingId (handleMouseMove s e)) \<and>
    truthy (resizeHandle (handleMouseMove s e)) \<and> j < length (bubbles (handleMouseMove s e)) \<and>
    box_roomy (box (bubbles (handleMouseMove s e) ! j))"
  unfolding resize_branch[OF assms(1-3)]
  using assms coords_range[of e]
  by (simp add: resize_box_roomy)

lemma resize_moves_nth_roomy:
  assumes "\<not> isPanning s" and "truthy (resizingId s)" and "truthy (resizeHandle s)"
    and "j < length (bubbles s)" and "box_roomy (box (bubbles s ! j))"
  shows "\<not> isPanning (foldl handleMouseMove s ms) \<and> truthy (resizingId (foldl handleMouseMove s ms)) \<and>
    truthy (resizeHandle (foldl handleMouseMove s ms)) \<and> j < length (bubbles (foldl handleMouseMove s ms)) \<and>
    box_roomy (box (bubbles (foldl handleMouseMove s ms) ! j))"
  using assms
proof (induction ms arbitrary: s rule: rev_induct)
  case Nil
  then show ?case by simp
next
  case (snoc m ms)
  from snoc.IH[OF snoc.prems] resize_move_nth_roomy[of "foldl handleMouseMove s ms" j m]
  show ?case by simp
qed

text \<open>
  C1, as the code has it. Whatever pointer events arrive (down, move, up, in any order
  and in any mode), a bubble whose box has xmin < xmax and ymin < ymax stays in the
  store with xmin < xmax and ymin < ymax. The pointer-moves of a resize gesture keep
  inside [0, 1000] a box that is inside [0, 1000] with sides of at least 10 units, and
  keep those sides at least 10. A drag translates the box without clamping it.
\<close>

theorem box_stays_ordered:
  "(j < length (bubbles s) \<and> box_ordered (box (bubbles s ! j)) \<longrightarrow>
      j < length (bubbles (foldl pointer_step s evs)) \<and>
      box_ordered (box (bubbles (foldl pointer_step s evs) ! j))) \<and>
   (\<not> isPanning s \<and> truthy (resizingId s) \<and> truthy (resizeHandle s) \<and>
    j < length (bubbles s) \<and> box_roomy (box (bubbles s ! j)) \<longrightarrow>
      box_roomy (box (bubbles (foldl handleMouseMove s ms) ! j)))"
  using pointer_steps_nth_ordered[of j s evs] resize_moves_nth_roomy[of s j ms] by blast

theorem box_stays_ordered_witness:
  "(0::nat) < length (bubbles (handleMouseDown example_select (handle_at ''se'' ''1'' 0.375 0.375))) \<and>
   box_ordered (box (bubbles (handleMouseDown example_select (handle_at ''se'' ''1'' 0.375 0.375)) ! 0)) \<and>
   box_ordered (box (bubbles (foldl pointer_step
      (handleMouseDown example_select (handle_at ''se'' ''1'' 0.375 0.375))
      [MouseMove (pointer_at 0 0), MouseUp True ''3'', MouseDown (pointer_at 0.13 0.13),
       MouseMove (pointer_at 1 1)]) ! 0)) \<and>
   \<not> isPanning (handleMouseDown example_select (handle_at ''se'' ''1'' 0.375 0.375)) \<and>
   truthy (resizingId (handleMouseDown example_select (handle_at ''se'' ''1'' 0.375 0.375))) \<and>
   truthy (resizeHandle (handleMouseDown example_select (handle_at ''se'' ''1'' 0.375 0.375))) \<and>
   box_roomy (box (bubbles (handleMouseDown example_select (handle_at ''se'' ''1'' 0.375 0.375)) ! 0)) \<and>
   box_roomy (box (bubbles (foldl handleMouseMove
      (handleMouseDown example_select (handle_at ''se'' ''1'' 0.375 0.375))
      [pointer_at 0 0, pointer_at 2 2]) ! 0))"
proof -
  let ?s = "handleMouseDown example_select (handle_at ''se'' ''1'' 0.375 0.375)"
  have s: "?s = example_select\<lparr> resizingId := Some ''1'', resizeHandle := Some ''se'',
      isDragging := False \<rparr>"
    by (simp add: handleMouseDown_def example_select_def handle_at_def pointer_at_def
          commit_def addToHistory_def initial_editor_def)
  have h: "0 < length (bubbles ?s)" "box_ordered (box (bubbles ?s ! 0))" "\<not> isPanning ?s"
    "truthy (resizingId ?s)" "truthy (resizeHandle ?s)" "box_roomy (box (bubbles ?s ! 0))"
    unfolding s
    by (simp_all add: example_select_def commit_def addToHistory_def initial_editor_def tempBubble_def
          example_box_def box_ordered_def box_roomy_def box_in_range_def)
  from box_stays_ordered[of 0 ?s
      "[MouseMove (pointer_at 0 0), MouseUp True ''3'', MouseDown (pointer_at 0.13 0.13),
        MouseMove (pointer_at 1 1)]" "[pointer_at 0 0, pointer_at 2 2]"] h
  show ?thesis by blast
qed

text \<open>
  C1 as stated fails. Grabbing bubble 1 in its middle and dragging the pointer to the
  top left corner of the canvas moves the box to negative coordinates; and a box
  narrower than 10 units at the canvas edge is pushed out by the minimum-size clamp of
  a resize.
\<close>

theorem box_leaves_canvas_counterexample:
  "list_all (\<lambda>b. box_invariant (box b)) (bubbles example_select) \<and>
   map box (bubbles (foldl pointer_step example_select
      [MouseDown (pointer_at 0.25 0.25), MouseMove (pointer_at 0 0)]))
     = [\<lparr> ymin = - 125, xmin = - 125, ymax = 125, xmax = 125 \<rparr>,
        \<lparr> ymin = 500, xmin = 500, ymax = 750, xmax = 1000 \<rparr>] \<and>
   \<not> list_all (\<lambda>b. box_invariant (box b)) (bubbles (foldl pointer_step example_select
      [MouseDown (pointer_at 0.25 0.25), MouseMove (pointer_at 0 0)])) \<and>
   list_all (\<lambda>b. box_invariant (box b)) (bubbles example_narrow) \<and>
   map box (bubbles (foldl pointer_step example_narrow
      [MouseDown (handle_at ''nw'' ''1'' 0 0), MouseMove (pointer_at 0.5 0.5)]))
     = [\<lparr> ymin = - 5, xmin = - 5, ymax = 5, xmax = 5 \<rparr>] \<and>
   \<not> list_all (\<lambda>b. box_invariant (box b)) (bubbles (foldl pointer_step example_narrow
      [MouseDown (handle_at ''nw'' ''1'' 0 0), MouseMove (pointer_at 0.5 0.5)]))"
  by (simp add: handleMouseDown_def handleMouseMove_def example_select_def example_narrow_def
        pointer_at_def handle_at_def getRelativeCoords_def commit_def addToHistory_def initial_editor_def
        tempBubble_def example_box_def hit_def drag_box_def resize_box_def Let_def
        box_invariant_def box_ordered_def box_in_range_def)

end
